theory Spec2Isabelle
  imports Complex_Main "HOL-Library.Log_Nat" "HOL-Library.Word"
begin

section \<open>Conventions of the embedding\<close>

text \<open>
  The development embeds the fallback routines of \<^verbatim>\<open>mne/fixes.py\<close>.
  A Python name \<^verbatim>\<open>_name\<close> is written \<open>fb_name\<close> (an Isabelle name cannot start
  with an underscore); a routine of numpy or scipy that the file only calls is written
  \<open>np_name\<close> or keeps its own name and is modelled from its documented behaviour.
  Floating-point numbers are modelled by exact reals: rounding, infinities and NaN are not
  represented. Exceptions are values of the type \<open>error\<close>, returned on the left of a sum.
\<close>

datatype error =
    ValueError string
  | IndexError string
  | LinAlgError string

text \<open>Running a fallible step after another: the first exception ends the computation.\<close>

definition ebind :: "error + 'a \<Rightarrow> ('a \<Rightarrow> error + 'b) \<Rightarrow> error + 'b" where
  "ebind r f = (case r of Inl e \<Rightarrow> Inl e | Inr v \<Rightarrow> f v)"

text \<open>
  The messages of the \<^verbatim>\<open>ValueError\<close>s that the file raises itself when it validates its
  arguments (format arguments left out), in the order of the source.
\<close>

definition msg_padtype :: string where
  "msg_padtype = ''Unknown value given to padtype.''"

definition msg_too_short :: string where
  "msg_too_short = ''The length of the input vector x must be at least padlen''"

definition msg_same_length :: string where
  "msg_same_length = ''freq and gain must be of same length.''"

definition msg_ntaps :: string where
  "msg_ntaps = ''ntaps must be less than nfreqs''"

definition msg_endpoints :: string where
  "msg_endpoints = ''freq must start with 0 and end with `nyq`.''"

definition msg_nondecreasing :: string where
  "msg_nondecreasing = ''The values in freq must be nondecreasing.''"

definition msg_twice :: string where
  "msg_twice = ''A value in freq must not occur more than twice.''"

definition msg_even_nyquist :: string where
  "msg_even_nyquist =
     ''A filter with an even number of coefficients must have zero gain at the Nyquist rate.''"

text \<open>
  The two kinds of failure the specification names; both are \<^verbatim>\<open>ValueError\<close> in Python.
  \<open>InsufficientDataLength\<close> is the error of a signal too short for the padding;
  \<open>InvalidArgument\<close> covers the other validation errors.
\<close>

definition InsufficientDataLength :: error where
  "InsufficientDataLength = ValueError msg_too_short"

definition validation_messages :: "string list" where
  "validation_messages =
     [msg_padtype, msg_same_length, msg_ntaps, msg_endpoints, msg_nondecreasing, msg_twice,
      msg_even_nyquist]"

definition InvalidArgument :: "error \<Rightarrow> bool" where
  "InvalidArgument e = (\<exists>m \<in> set validation_messages. e = ValueError m)"

section \<open>Model: sign copy\<close>

text \<open>\<^verbatim>\<open>return np.abs(x1) * np.sign(x2)\<close>; \<^verbatim>\<open>np.sign\<close> is \<open>-1\<close>, \<open>0\<close> or \<open>1\<close>.\<close>

definition fb_copysign :: "real \<Rightarrow> real \<Rightarrow> real" where
  "fb_copysign x1 x2 = \<bar>x1\<bar> * sgn x2"

section \<open>Model: histogram counting with a minimum length\<close>

text \<open>
  numpy's integer type \<^verbatim>\<open>np.int\<close> is a fixed-width machine integer, the C \<^verbatim>\<open>long\<close>: a signed
  word of 64 bits on the platforms considered here. The counts that \<^verbatim>\<open>np.bincount\<close> returns
  without weights have the same width.
\<close>

type_synonym long = "64 word"

text \<open>A numpy array of machine integers or of floating-point numbers (one dimension).\<close>

datatype nparray = IntArray "long list" | FloatArray "real list"

fun alen :: "nparray \<Rightarrow> nat" where
  "alen (IntArray xs) = length xs"
| "alen (FloatArray xs) = length xs"

text \<open>Truncation towards zero, as a mathematical integer, and the values a \<open>long\<close> holds.\<close>

definition trunc :: "real \<Rightarrow> int" where
  "trunc r = (if 0 \<le> r then \<lfloor>r\<rfloor> else \<lceil>r\<rceil>)"

definition in_long_range :: "int \<Rightarrow> bool" where
  "in_long_range v = (- (2 ^ 63) \<le> v \<and> v < 2 ^ 63)"

text \<open>
  The C cast of a float to a \<open>long\<close>, which numpy applies when a float array is assigned
  into an integer array. A value whose truncation fits the word is truncated towards zero.
  For any other value C leaves the result to the platform; it is still some \<open>long\<close>, given
  here by the parameter \<open>out_of_range\<close>. On x86-64 the conversion instruction returns the
  word \<open>- 2\<^sup>6\<^sup>3\<close> for every such value (\<open>indefinite\<close>).
\<close>

definition cast_long :: "(real \<Rightarrow> long) \<Rightarrow> real \<Rightarrow> long" where
  "cast_long out_of_range r =
     (if in_long_range (trunc r) then word_of_int (trunc r) else out_of_range r)"

definition indefinite :: "real \<Rightarrow> long" where
  "indefinite r = word_of_int (- (2 ^ 63))"

fun as_int :: "(real \<Rightarrow> long) \<Rightarrow> nparray \<Rightarrow> long list" where
  "as_int out_of_range (IntArray xs) = xs"
| "as_int out_of_range (FloatArray xs) = map (cast_long out_of_range) xs"

text \<open>
  Modelled from the spec: \<^verbatim>\<open>np.bincount(X, weights)\<close> is numpy's own routine (not in the
  file): "weighted histogram counting". Entry \<open>k\<close> counts the occurrences of \<open>k\<close> in \<open>X\<close>, or
  sums their weights; the result has one entry per value up to the largest of \<open>X\<close>. The
  results below hold for any native result and do not depend on this model.
\<close>

definition np_bincount :: "int list \<Rightarrow> real list option \<Rightarrow> error + nparray" where
  "np_bincount X weights =
     (if X = [] then Inl (ValueError ''The first argument cannot be empty.'')
      else if \<exists>x \<in> set X. x < 0 then
        Inl (ValueError ''The first argument of bincount must be non-negative'')
      else
        let n = nat (fold max X 0) + 1 in
        (case weights of
           None \<Rightarrow> Inr (IntArray (map (\<lambda>k. of_nat (count_list X (int k))) [0..<n]))
         | Some w \<Rightarrow>
             if length w \<noteq> length X then
               Inl (ValueError ''The weights and list don't have the same length.'')
             else
               Inr (FloatArray
                 (map (\<lambda>k. sum_list (map snd (filter (\<lambda>p. fst p = int k) (zip X w)))) [0..<n]))))"

text \<open>
  \<^verbatim>\<open>
  def _bincount(X, weights=None, minlength=None):
      result = np.bincount(X, weights)
      if len(result) >= minlength:
          return result
      out = np.zeros(minlength, np.int)
      out[:len(result)] = result
      return out
  \<close>
  With the default \<^verbatim>\<open>minlength=None\<close> the comparison \<^verbatim>\<open>len(result) >= None\<close> is true in
  Python 2 (the language of the file), so the native result is returned. The assignment
  \<^verbatim>\<open>out[:len(result)] = result\<close> casts each entry of \<^verbatim>\<open>result\<close> to the type of \<^verbatim>\<open>out\<close>; the
  first argument of the model is the platform's conversion of the floats that do not fit.
\<close>

definition fb_bincount ::
  "(real \<Rightarrow> long) \<Rightarrow> int list \<Rightarrow> real list option \<Rightarrow> int option \<Rightarrow> error + nparray" where
  "fb_bincount out_of_range X weights minlength =
     (case np_bincount X weights of
        Inl e \<Rightarrow> Inl e
      | Inr result \<Rightarrow>
          (case minlength of
             None \<Rightarrow> Inr result
           | Some m \<Rightarrow>
               if int (alen result) \<ge> m then Inr result
               else
                 let out = replicate (nat m) (0::long)
                 in Inr (IntArray (as_int out_of_range result @ drop (alen result) out))))"

section \<open>Model: FIR filter design by frequency sampling\<close>

subsection \<open>Library routines the design calls\<close>

text \<open>\<^verbatim>\<open>np.diff(freq)\<close>: the differences of consecutive entries.\<close>

definition np_diff :: "real list \<Rightarrow> real list" where
  "np_diff xs = map2 (\<lambda>a b. b - a) (butlast xs) (tl xs)"

text \<open>\<^verbatim>\<open>np.finfo(float).eps\<close>: the distance from 1.0 to the next double.\<close>

definition float_eps :: real where
  "float_eps = 1 / 2 ^ 52"

text \<open>
  Modelled from the spec: \<^verbatim>\<open>np.linspace(start, stop, num)\<close> (numpy, not in the file): the
  "evenly sampled" mesh of \<open>num\<close> points from \<open>start\<close> to \<open>stop\<close>, both included; empty when
  \<open>num\<close> is not positive.
\<close>

definition np_linspace :: "real \<Rightarrow> real \<Rightarrow> int \<Rightarrow> real list" where
  "np_linspace start stop num =
     (if num \<le> 0 then []
      else if num = 1 then [start]
      else map (\<lambda>k. start + real k * ((stop - start) / real_of_int (num - 1))) [0..<nat num])"

text \<open>
  Modelled from the spec: \<^verbatim>\<open>np.interp(x, xp, fp)\<close> (numpy, not in the file): piecewise
  linear interpolation of the points \<open>(xp, fp)\<close>, constant outside \<open>[xp[0], xp[-1]]\<close>;
  meaningful for increasing \<open>xp\<close>.
\<close>

definition interp1 :: "real list \<Rightarrow> real list \<Rightarrow> real \<Rightarrow> real" where
  "interp1 xp fp x =
     (if x < hd xp then hd fp
      else if x \<ge> last xp then last fp
      else
        let j = length (takeWhile (\<lambda>v. v \<le> x) xp) - 1;
            slope = (fp ! (j + 1) - fp ! j) / (xp ! (j + 1) - xp ! j)
        in slope * (x - xp ! j) + fp ! j)"

definition np_interp :: "real list \<Rightarrow> real list \<Rightarrow> real list \<Rightarrow> error + real list" where
  "np_interp x xp fp =
     (if xp = [] then Inl (ValueError ''array of sample points is empty'')
      else if length fp \<noteq> length xp then Inl (ValueError ''fp and xp are not of the same length.'')
      else Inr (map (interp1 xp fp) x))"

text \<open>
  Modelled from the spec: \<^verbatim>\<open>numpy.fft.irfft(a)\<close> (numpy, not in the file): the inverse of
  the discrete Fourier transform of a real signal. From \<open>m\<close> frequency samples it returns
  \<open>n = 2 * (m - 1)\<close> real samples, and refuses \<open>n < 1\<close>.
\<close>

definition irfft :: "complex list \<Rightarrow> error + real list" where
  "irfft a =
     (let m = length a; n = 2 * (int m - 1) in
      if n < 1 then Inl (ValueError ''Invalid number of FFT data points'')
      else Inr (map (\<lambda>k.
             (Re (a ! 0)
              + 2 * (\<Sum>j\<leftarrow>[1..<m - 1]. Re (a ! j * cis (2 * pi * real j * real k / real_of_int n)))
              + Re (a ! (m - 1) * cis (pi * real k))) / real_of_int n)
           [0..<nat n]))"

text \<open>
  Modelled from the spec: \<^verbatim>\<open>scipy.signal.get_window(window, Nx, fftbins=False)\<close> (scipy,
  not in the file), for three of the windows it knows by name, in their symmetric form:
  empty for \<open>Nx < 1\<close>, \<open>[1]\<close> for \<open>Nx = 1\<close>, else \<open>Nx\<close> samples of the window.
\<close>

datatype window = Hamming | Hann | Blackman

definition get_window :: "window \<Rightarrow> int \<Rightarrow> real list" where
  "get_window w M =
     (if M < 1 then []
      else if M = 1 then [1]
      else map (\<lambda>n.
             let t = 2 * pi * real n / real_of_int (M - 1) in
             (case w of
                Hamming \<Rightarrow> 0.54 - 0.46 * cos t
              | Hann \<Rightarrow> 0.5 - 0.5 * cos t
              | Blackman \<Rightarrow> 0.42 - 0.5 * cos t + 0.08 * cos (2 * t)))
           [0..<nat M])"

text \<open>Python's slice \<^verbatim>\<open>xs[:n]\<close>: a negative \<open>n\<close> counts from the end.\<close>

definition slice_to :: "int \<Rightarrow> 'a list \<Rightarrow> 'a list" where
  "slice_to n xs = (if 0 \<le> n then take (nat n) xs else take (length xs - nat (- n)) xs)"

text \<open>The product of two one-dimensional arrays, with numpy's broadcasting of a length of 1.\<close>

definition np_multiply1 :: "real list \<Rightarrow> real list \<Rightarrow> error + real list" where
  "np_multiply1 xs ys =
     (if length xs = length ys then Inr (map2 (*) xs ys)
      else if length ys = 1 then Inr (map (\<lambda>x. x * hd ys) xs)
      else if length xs = 1 then Inr (map (\<lambda>y. hd xs * y) ys)
      else Inl (ValueError ''operands could not be broadcast together''))"

subsection \<open>The design routine\<close>

text \<open>
  The argument checks of \<^verbatim>\<open>_firwin2\<close>, in the order of the source, followed by the default
  of \<^verbatim>\<open>nfreqs\<close>; the result is the value of \<^verbatim>\<open>nfreqs\<close> in use afterwards.
  \<^verbatim>\<open>
    if len(freq) != len(gain):
        raise ValueError('freq and gain must be of same length.')
    if nfreqs is not None and numtaps >= nfreqs:
        raise ValueError('ntaps must be less than nfreqs, but firwin2 was '
                    'called with ntaps=%d and nfreqs=%s' % (numtaps, nfreqs))
    if freq[0] != 0 or freq[-1] != nyq:
        raise ValueError('freq must start with 0 and end with `nyq`.')
    d = np.diff(freq)
    if (d < 0).any():
        raise ValueError('The values in freq must be nondecreasing.')
    d2 = d[:-1] + d[1:]
    if (d2 == 0).any():
        raise ValueError('A value in freq must not occur more than twice.')
    if numtaps % 2 == 0 and gain[-1] != 0.0:
        raise ValueError("A filter with an even number of coefficients must "
                            "have zero gain at the Nyquist rate.")
    if nfreqs is None:
        nfreqs = 1 + 2 ** int(ceil(log(numtaps, 2)))
  \<close>
  \<^verbatim>\<open>freq[0]\<close> of an empty list raises \<^verbatim>\<open>IndexError\<close>; \<^verbatim>\<open>log(numtaps, 2)\<close> raises
  \<^verbatim>\<open>ValueError\<close> (math domain error) unless \<open>numtaps\<close> is positive.
\<close>

definition firwin2_checks ::
  "int \<Rightarrow> real list \<Rightarrow> real list \<Rightarrow> int option \<Rightarrow> real \<Rightarrow> error + int" where
  "firwin2_checks numtaps freq gain nfreqs nyq =
     (if length freq \<noteq> length gain then Inl (ValueError msg_same_length)
      else if (case nfreqs of None \<Rightarrow> False | Some nf \<Rightarrow> numtaps \<ge> nf) then
        Inl (ValueError msg_ntaps)
      else if freq = [] then Inl (IndexError ''list index out of range'')
      else if hd freq \<noteq> 0 \<or> last freq \<noteq> nyq then Inl (ValueError msg_endpoints)
      else
        let d = np_diff freq in
        if \<exists>v \<in> set d. v < 0 then Inl (ValueError msg_nondecreasing)
        else
          let d2 = map2 (+) (butlast d) (tl d) in
          if \<exists>v \<in> set d2. v = 0 then Inl (ValueError msg_twice)
          else if numtaps mod 2 = 0 \<and> last gain \<noteq> 0 then Inl (ValueError msg_even_nyquist)
          else
            (case nfreqs of
               Some nf \<Rightarrow> Inr nf
             | None \<Rightarrow>
                 if numtaps \<le> 0 then Inl (ValueError ''math domain error'')
                 else Inr (1 + 2 ^ nat \<lceil>log 2 (real_of_int numtaps)\<rceil>)))"

text \<open>
  The loop that separates a repeated breakpoint. It assigns into \<^verbatim>\<open>freq\<close> itself, the
  caller's list; the model returns the list as the loop leaves it.
  \<^verbatim>\<open>
    eps = np.finfo(float).eps
    for k in range(len(freq)):
        if k < len(freq) - 1 and freq[k] == freq[k + 1]:
            freq[k] = freq[k] - eps
            freq[k + 1] = freq[k + 1] + eps
  \<close>
\<close>

definition tweak_step :: "nat \<Rightarrow> real list \<Rightarrow> real list" where
  "tweak_step k freq =
     (if Suc k < length freq \<and> freq ! k = freq ! Suc k then
        (freq[k := freq ! k - float_eps])[Suc k := freq ! Suc k + float_eps]
      else freq)"

definition tweak_freq :: "real list \<Rightarrow> real list" where
  "tweak_freq freq = fold tweak_step [0..<length freq] freq"

text \<open>
  The computation after the loop.
  \<^verbatim>\<open>
    x = np.linspace(0.0, nyq, nfreqs)
    fx = np.interp(x, freq, gain)
    shift = np.exp(-(numtaps - 1) / 2. * 1.j * np.pi * x / nyq)
    fx2 = fx * shift
    out_full = irfft(fx2)
    if window is not None:
        wind = get_window(window, numtaps, fftbins=False)
    else:
        wind = 1
    out = out_full[:numtaps] * wind
    return out
  \<close>
\<close>

definition firwin2_taps ::
  "int \<Rightarrow> real list \<Rightarrow> real list \<Rightarrow> int \<Rightarrow> window option \<Rightarrow> real \<Rightarrow> error + real list" where
  "firwin2_taps numtaps freq gain nfreqs window nyq =
     (let x = np_linspace 0 nyq nfreqs in
      case np_interp x freq gain of
        Inl e \<Rightarrow> Inl e
      | Inr fx \<Rightarrow>
          let shift = map (\<lambda>v. exp (- (complex_of_real (real_of_int (numtaps - 1) / 2)) * \<i>
                                   * complex_of_real pi * complex_of_real v / complex_of_real nyq)) x;
              fx2 = map2 (\<lambda>f s. complex_of_real f * s) fx shift
          in
          (case irfft fx2 of
             Inl e \<Rightarrow> Inl e
           | Inr out_full \<Rightarrow>
               (case window of
                  Some w \<Rightarrow> np_multiply1 (slice_to numtaps out_full) (get_window w numtaps)
                | None \<Rightarrow> Inr (map (\<lambda>v. v * 1) (slice_to numtaps out_full)))))"

text \<open>
  \<^verbatim>\<open>_firwin2(numtaps, freq, gain, nfreqs=None, window='hamming', nyq=1.0)\<close>. The first
  component of the result is the caller's \<^verbatim>\<open>freq\<close> list as the call leaves it, the
  second the exception raised or the coefficients returned.
\<close>

definition fb_firwin2 ::
  "int \<Rightarrow> real list \<Rightarrow> real list \<Rightarrow> int option \<Rightarrow> window option \<Rightarrow> real
     \<Rightarrow> real list \<times> (error + real list)" where
  "fb_firwin2 numtaps freq gain nfreqs window nyq =
     (case firwin2_checks numtaps freq gain nfreqs nyq of
        Inl e \<Rightarrow> (freq, Inl e)
      | Inr nf \<Rightarrow>
          let freq' = tweak_freq freq
          in (freq', firwin2_taps numtaps freq' gain nf window nyq))"

section \<open>Model: set deduplication and membership testing\<close>

subsection \<open>Array primitives\<close>

text \<open>
  \<^verbatim>\<open>ar.argsort(kind='mergesort')\<close>: the indices that sort \<open>ar\<close>, by a stable sort (equal
  entries keep their order). The default kind of \<^verbatim>\<open>ar.argsort()\<close> is not stable; it is
  modelled by the same function, which fixes one of the orders it may give to equal entries.
\<close>

definition argsort :: "('a::linorder) list \<Rightarrow> nat list" where
  "argsort ar = map snd (sort_key fst (zip ar [0..<length ar]))"

text \<open>\<^verbatim>\<open>ar[idx]\<close> for an index array: \<^verbatim>\<open>IndexError\<close> when an index is out of bounds.\<close>

definition take_idx :: "'a list \<Rightarrow> nat list \<Rightarrow> error + 'a list" where
  "take_idx ar idx =
     (if \<forall>i \<in> set idx. i < length ar then Inr (map (\<lambda>i. ar ! i) idx)
      else Inl (IndexError ''index out of bounds''))"

text \<open>\<^verbatim>\<open>ar[flag]\<close> for a boolean array of the same length: the entries flagged true.\<close>

definition take_mask :: "'a list \<Rightarrow> bool list \<Rightarrow> error + 'a list" where
  "take_mask ar flag =
     (if length flag = length ar then Inr (map fst (filter snd (zip ar flag)))
      else Inl (IndexError ''boolean index did not match indexed array''))"

text \<open>\<^verbatim>\<open>np.cumsum(flag)\<close> of a boolean array: the number of true flags up to each position.\<close>

fun cumsum_from :: "nat \<Rightarrow> bool list \<Rightarrow> nat list" where
  "cumsum_from acc [] = []"
| "cumsum_from acc (f # fs) =
     (let acc' = acc + (if f then 1 else 0) in acc' # cumsum_from acc' fs)"

definition np_cumsum :: "bool list \<Rightarrow> nat list" where
  "np_cumsum flag = cumsum_from 0 flag"

text \<open>\<^verbatim>\<open>ar[1:] != ar[:-1]\<close> and \<^verbatim>\<open>ar[1:] == ar[:-1]\<close>, entry by entry.\<close>

definition adjacent_differ :: "'a list \<Rightarrow> bool list" where
  "adjacent_differ ar = map2 (\<lambda>a b. a \<noteq> b) (tl ar) (butlast ar)"

definition adjacent_equal :: "'a list \<Rightarrow> bool list" where
  "adjacent_equal ar = map2 (\<lambda>a b. a = b) (tl ar) (butlast ar)"

subsection \<open>Deduplication\<close>

text \<open>
  \<^verbatim>\<open>_unique(ar, return_inverse=True)\<close>, for a one-dimensional \<open>ar\<close>: the sorted distinct
  values and, for each entry of \<open>ar\<close>, the index of its value among them.
  \<^verbatim>\<open>
    if ar.size == 0:
        ...
        elif return_inverse or return_index:
            return ar, np.empty(0, np.bool)
    if return_inverse or return_index:
        perm = ar.argsort()
        aux = ar[perm]
        flag = np.concatenate(([True], aux[1:] != aux[:-1]))
        if return_inverse:
            iflag = np.cumsum(flag) - 1
            iperm = perm.argsort()
            if return_index: ...
            else:
                return aux[flag], iflag[iperm]
  \<close>
  The first flag is true, so every entry of \<^verbatim>\<open>np.cumsum(flag)\<close> is at least 1 and the
  subtraction of 1 stays a natural number.
\<close>

definition fb_unique_inverse :: "('a::linorder) list \<Rightarrow> error + ('a list \<times> nat list)" where
  "fb_unique_inverse ar =
     (if length ar = 0 then Inr (ar, [])
      else
        let perm = argsort ar in
        ebind (take_idx ar perm) (\<lambda>aux.
        let flag = [True] @ adjacent_differ aux;
            iflag = map (\<lambda>c. c - 1) (np_cumsum flag);
            iperm = argsort perm
        in
        ebind (take_mask aux flag) (\<lambda>vals.
        ebind (take_idx iflag iperm) (\<lambda>inverse.
        Inr (vals, inverse)))))"

text \<open>
  Modelled from the spec: \<^verbatim>\<open>np.unique(ar)\<close> (numpy's own routine, not in the file): "set
  deduplication", the sorted distinct values of \<open>ar\<close>. Its steps are those of the last
  branch of \<^verbatim>\<open>_unique\<close>: sort, then keep each entry that differs from the one before it.
\<close>

definition np_unique :: "('a::linorder) list \<Rightarrow> error + 'a list" where
  "np_unique ar =
     (if length ar = 0 then Inr ar
      else
        let aux = sort ar;
            flag = [True] @ adjacent_differ aux
        in take_mask aux flag)"

subsection \<open>Membership\<close>

text \<open>
  \<^verbatim>\<open>
  def _in1d(ar1, ar2, assume_unique=False):
      if not assume_unique:
          ar1, rev_idx = unique(ar1, return_inverse=True)
          ar2 = np.unique(ar2)
      ar = np.concatenate((ar1, ar2))
      order = ar.argsort(kind='mergesort')
      sar = ar[order]
      equal_adj = (sar[1:] == sar[:-1])
      flag = np.concatenate((equal_adj, [False]))
      indx = order.argsort(kind='mergesort')[:len(ar1)]
      if assume_unique:
          return flag[indx]
      else:
          return flag[indx][rev_idx]
  \<close>
  The first definition is the part that both branches share, on the arrays in use after
  the deduplication.
\<close>

definition in1d_sorted_flags :: "('a::linorder) list \<Rightarrow> 'a list \<Rightarrow> error + bool list" where
  "in1d_sorted_flags ar1 ar2 =
     (let ar = ar1 @ ar2;
          order = argsort ar
      in
      ebind (take_idx ar order) (\<lambda>sar.
      let equal_adj = adjacent_equal sar;
          flag = equal_adj @ [False];
          indx = take (length ar1) (argsort order)
      in take_idx flag indx))"

definition fb_in1d :: "('a::linorder) list \<Rightarrow> 'a list \<Rightarrow> bool \<Rightarrow> error + bool list" where
  "fb_in1d ar1 ar2 assume_unique =
     (if assume_unique then in1d_sorted_flags ar1 ar2
      else
        ebind (fb_unique_inverse ar1) (\<lambda>(ar1', rev_idx).
        ebind (np_unique ar2) (\<lambda>ar2'.
        ebind (in1d_sorted_flags ar1' ar2') (\<lambda>flags.
        take_idx flags rev_idx))))"

subsection \<open>Notions used in the proofs about sorting\<close>

text \<open>The value-index pairs of an array in sorted order, whose second components are the
  argsort.\<close>

definition sorted_pairs :: "('a::linorder) list \<Rightarrow> ('a \<times> nat) list" where
  "sorted_pairs ar = sort_key fst (zip ar [0..<length ar])"

text \<open>The order of a stable sort: by value, then by position.\<close>

definition key_then_index :: "('a::linorder) \<times> nat \<Rightarrow> 'a \<times> nat \<Rightarrow> bool" where
  "key_then_index p q = (fst p < fst q \<or> (fst p = fst q \<and> snd p < snd q))"

section \<open>Model: arrays of several dimensions\<close>

text \<open>
  A numpy array of floats: its shape and its entries, addressed by one index per
  dimension. Only the entries whose index is within the shape are meaningful.
\<close>

record ndarray =
  shape :: "nat list"
  item :: "nat list \<Rightarrow> real"

text \<open>
  \<^verbatim>\<open>x.shape[axis]\<close> and every use of \<^verbatim>\<open>axis\<close> by the library: a negative axis counts from
  the last dimension, an axis outside \<open>-ndim..ndim-1\<close> raises \<^verbatim>\<open>IndexError\<close>. The routines
  below receive the axis already resolved.
\<close>

definition resolve_axis :: "nat \<Rightarrow> int \<Rightarrow> error + nat" where
  "resolve_axis ndim axis =
     (if - int ndim \<le> axis \<and> axis < int ndim
      then Inr (nat (if axis < 0 then axis + int ndim else axis))
      else Inl (IndexError ''tuple index out of range''))"

subsection \<open>Slices\<close>

text \<open>\<^verbatim>\<open>range(start, stop, step)\<close> for a nonzero step.\<close>

definition py_range :: "int \<Rightarrow> int \<Rightarrow> int \<Rightarrow> int list" where
  "py_range start stop step =
     (if step > 0
      then map (\<lambda>j. start + int j * step) [0..<nat ((stop - start + step - 1) div step)]
      else map (\<lambda>j. start + int j * step) [0..<nat ((start - stop - step - 1) div (- step))])"

text \<open>
  The indices that the slice \<^verbatim>\<open>start:stop:step\<close> selects from a sequence of length \<open>len\<close>
  (Python's \<^verbatim>\<open>slice.indices\<close>): absent bounds are the ends, negative bounds count from the
  end, and bounds outside the sequence are clipped.
\<close>

definition slice_indices :: "int option \<Rightarrow> int option \<Rightarrow> int option \<Rightarrow> nat \<Rightarrow> nat list" where
  "slice_indices start stop step len =
     (let n = int len;
          st = (case step of None \<Rightarrow> 1 | Some s \<Rightarrow> s);
          lower = (if st < 0 then - 1 else 0);
          upper = (if st < 0 then n - 1 else n);
          clip = (\<lambda>v. if v < 0 then max (v + n) lower else min v upper);
          s = (case start of None \<Rightarrow> (if st < 0 then upper else lower) | Some v \<Rightarrow> clip v);
          e = (case stop of None \<Rightarrow> (if st < 0 then lower else upper) | Some v \<Rightarrow> clip v)
      in map nat (py_range s e st))"

text \<open>
  Modelled from the spec: \<^verbatim>\<open>scipy.signal._arraytools.axis_slice\<close> (scipy, not in the
  file) takes the slice \<^verbatim>\<open>start:stop:step\<close> along one axis and everything along the others;
  \<^verbatim>\<open>axis_reverse\<close> is the slice with step \<open>-1\<close>, the array reversed along the axis.
\<close>

definition axis_slice ::
  "ndarray \<Rightarrow> int option \<Rightarrow> int option \<Rightarrow> int option \<Rightarrow> nat \<Rightarrow> ndarray" where
  "axis_slice a start stop step k =
     (let sel = slice_indices start stop step (shape a ! k)
      in \<lparr>shape = (shape a)[k := length sel],
          item = (\<lambda>idx. item a (idx[k := sel ! (idx ! k)]))\<rparr>)"

definition axis_reverse :: "ndarray \<Rightarrow> nat \<Rightarrow> ndarray" where
  "axis_reverse a k = axis_slice a None None (Some (- 1)) k"

subsection \<open>Arithmetic with broadcasting, concatenation\<close>

text \<open>
  numpy's broadcasting of two arrays of the same number of dimensions: along each
  dimension the extents are equal or one of them is 1, and the array of extent 1 is
  repeated.
\<close>

definition broadcast_shape :: "nat list \<Rightarrow> nat list \<Rightarrow> error + nat list" where
  "broadcast_shape s1 s2 =
     (if length s1 = length s2 \<and> (\<forall>p \<in> set (zip s1 s2). fst p = snd p \<or> fst p = 1 \<or> snd p = 1)
      then Inr (map2 (\<lambda>d1 d2. if d1 = 1 then d2 else d1) s1 s2)
      else Inl (ValueError ''operands could not be broadcast together''))"

definition bc_index :: "nat list \<Rightarrow> nat list \<Rightarrow> nat list" where
  "bc_index sh idx = map2 (\<lambda>d i. if d = 1 then 0 else i) sh idx"

definition nd_binop :: "(real \<Rightarrow> real \<Rightarrow> real) \<Rightarrow> ndarray \<Rightarrow> ndarray \<Rightarrow> error + ndarray" where
  "nd_binop f a b =
     ebind (broadcast_shape (shape a) (shape b)) (\<lambda>sh.
     Inr \<lparr>shape = sh,
          item = (\<lambda>idx. f (item a (bc_index (shape a) idx)) (item b (bc_index (shape b) idx)))\<rparr>)"

definition nd_scale :: "real \<Rightarrow> ndarray \<Rightarrow> ndarray" where
  "nd_scale c a = \<lparr>shape = shape a, item = (\<lambda>idx. c * item a idx)\<rparr>"

text \<open>\<^verbatim>\<open>np.ones(shape)\<close>, and \<^verbatim>\<open>np.reshape(v, shape)\<close> of a vector into a shape that is 1
  everywhere but along the axis \<open>k\<close>.\<close>

definition np_ones :: "nat list \<Rightarrow> ndarray" where
  "np_ones sh = \<lparr>shape = sh, item = (\<lambda>idx. 1)\<rparr>"

definition reshape_along :: "real list \<Rightarrow> nat list \<Rightarrow> nat \<Rightarrow> ndarray" where
  "reshape_along v sh k = \<lparr>shape = sh, item = (\<lambda>idx. v ! (idx ! k))\<rparr>"

text \<open>\<^verbatim>\<open>np.concatenate(arrays, axis)\<close>: the arrays one after the other along the axis; their
  shapes must agree in every other dimension.\<close>

definition concat2 :: "ndarray \<Rightarrow> ndarray \<Rightarrow> nat \<Rightarrow> error + ndarray" where
  "concat2 a b k =
     (if length (shape a) = length (shape b) \<and> (shape a)[k := 0] = (shape b)[k := 0]
      then Inr \<lparr>shape = (shape a)[k := shape a ! k + shape b ! k],
               item = (\<lambda>idx. if idx ! k < shape a ! k then item a idx
                             else item b (idx[k := idx ! k - shape a ! k]))\<rparr>
      else Inl (ValueError ''all the input array dimensions except for the concatenation axis must match exactly''))"

fun np_concatenate :: "ndarray list \<Rightarrow> nat \<Rightarrow> error + ndarray" where
  "np_concatenate [] k = Inl (ValueError ''need at least one array to concatenate'')"
| "np_concatenate [a] k = Inr a"
| "np_concatenate (a # rest) k = ebind (np_concatenate rest k) (\<lambda>r. concat2 a r k)"

subsection \<open>Signal extension\<close>

text \<open>
  Modelled from the spec: \<^verbatim>\<open>odd_ext\<close>, \<^verbatim>\<open>even_ext\<close> and \<^verbatim>\<open>const_ext\<close> of
  \<^verbatim>\<open>scipy.signal._arraytools\<close> (scipy, not in the file) extend the signal at both ends
  along the axis by \<open>n\<close> samples: "odd: reflect the signal about the boundary sample with
  point symmetry (value negated and mirrored)", "even: mirror the signal about the boundary
  sample without negation", "constant: extend by repeating the boundary sample's value".
  The two reflections refuse an \<open>n\<close> larger than the extent minus 1.
\<close>

definition msg_ext_too_big :: string where
  "msg_ext_too_big = ''The extension length n is too big. It must not exceed x.shape[axis]-1''"

definition odd_ext :: "ndarray \<Rightarrow> int \<Rightarrow> nat \<Rightarrow> error + ndarray" where
  "odd_ext x n k =
     (if n < 1 then Inr x
      else if n > int (shape x ! k) - 1 then Inl (ValueError msg_ext_too_big)
      else
        let left_end = axis_slice x (Some 0) (Some 1) None k;
            left_ext = axis_slice x (Some n) (Some 0) (Some (- 1)) k;
            right_end = axis_slice x (Some (- 1)) None None k;
            right_ext = axis_slice x (Some (- 2)) (Some (- (n + 2))) (Some (- 1)) k
        in
        ebind (nd_binop (-) (nd_scale 2 left_end) left_ext) (\<lambda>left.
        ebind (nd_binop (-) (nd_scale 2 right_end) right_ext) (\<lambda>right.
        np_concatenate [left, x, right] k)))"

definition even_ext :: "ndarray \<Rightarrow> int \<Rightarrow> nat \<Rightarrow> error + ndarray" where
  "even_ext x n k =
     (if n < 1 then Inr x
      else if n > int (shape x ! k) - 1 then Inl (ValueError msg_ext_too_big)
      else
        let left_ext = axis_slice x (Some n) (Some 0) (Some (- 1)) k;
            right_ext = axis_slice x (Some (- 2)) (Some (- (n + 2))) (Some (- 1)) k
        in np_concatenate [left_ext, x, right_ext] k)"

definition const_ext :: "ndarray \<Rightarrow> int \<Rightarrow> nat \<Rightarrow> error + ndarray" where
  "const_ext x n k =
     (if n < 1 then Inr x
      else
        let left_end = axis_slice x (Some 0) (Some 1) None k;
            ones_shape = (replicate (length (shape x)) 1)[k := nat n];
            ones = np_ones ones_shape;
            right_end = axis_slice x (Some (- 1)) None None k
        in
        ebind (nd_binop (*) ones left_end) (\<lambda>left_ext.
        ebind (nd_binop (*) ones right_end) (\<lambda>right_ext.
        np_concatenate [left_ext, x, right_ext] k)))"

section \<open>Model: the zero-phase filter\<close>

subsection \<open>Linear systems\<close>

text \<open>
  Modelled from the spec: \<^verbatim>\<open>np.linalg.solve(A, B)\<close> (numpy, not in the file), the "purely
  numeric" solution of the square system \<open>A z = B\<close>. Over exact reals it is Gaussian
  elimination: a row with a nonzero leading coefficient is the pivot, the leading unknown
  is eliminated from the other rows, and the rest is solved first. When no row can be the
  pivot the matrix is singular and numpy raises \<^verbatim>\<open>LinAlgError\<close>. A row is the pair of its
  coefficients and its right-hand side.
\<close>

definition dot :: "real list \<Rightarrow> real list \<Rightarrow> real" where
  "dot u v = sum_list (map2 (*) u v)"

fun find_pivot :: "(real list \<times> real) list \<Rightarrow> ((real list \<times> real) \<times> (real list \<times> real) list) option" where
  "find_pivot [] = None"
| "find_pivot (r # rs) =
     (if hd (fst r) \<noteq> 0 then Some (r, rs)
      else (case find_pivot rs of None \<Rightarrow> None | Some (p, others) \<Rightarrow> Some (p, r # others)))"

definition eliminate :: "real list \<times> real \<Rightarrow> real list \<times> real \<Rightarrow> real list \<times> real" where
  "eliminate p r =
     (let f = hd (fst r) / hd (fst p)
      in (map2 (\<lambda>u v. u - f * v) (tl (fst r)) (tl (fst p)), snd r - f * snd p))"

fun solve_rows :: "nat \<Rightarrow> (real list \<times> real) list \<Rightarrow> real list option" where
  "solve_rows 0 rows = Some []"
| "solve_rows (Suc m) rows =
     (case find_pivot rows of
        None \<Rightarrow> None
      | Some (p, others) \<Rightarrow>
          (case solve_rows m (map (eliminate p) others) of
             None \<Rightarrow> None
           | Some zs \<Rightarrow> Some ((snd p - dot (tl (fst p)) zs) / hd (fst p) # zs)))"

definition np_solve :: "real list list \<Rightarrow> real list \<Rightarrow> error + real list" where
  "np_solve A B =
     (if length B \<noteq> length A \<or> (\<exists>row \<in> set A. length row \<noteq> length A)
      then Inl (LinAlgError ''Last 2 dimensions of the array must be square'')
      else (case solve_rows (length A) (zip A B) of
              None \<Rightarrow> Inl (LinAlgError ''Singular matrix'')
            | Some z \<Rightarrow> Inr z))"

subsection \<open>Initial conditions of the filter\<close>

text \<open>
  Modelled from the spec: \<^verbatim>\<open>scipy.linalg.companion(a)\<close> (scipy, not in the file), the
  companion matrix of the polynomial \<open>a\<close>: its first row is \<open>-a[1:] / a[0]\<close>, the entries
  under the diagonal are 1. It refuses fewer than two coefficients and \<open>a[0] = 0\<close>.
\<close>

definition companion :: "real list \<Rightarrow> error + real list list" where
  "companion a =
     (if length a < 2 then Inl (ValueError ''The length of `a` must be at least 2.'')
      else if a ! 0 = 0 then Inl (ValueError ''The first coefficient in `a` must not be zero.'')
      else
        let m = length a - 1 in
        Inr (map (\<lambda>i. map (\<lambda>j. if i = 0 then - (a ! (j + 1)) / a ! 0
                                 else if j = i - 1 then 1 else 0) [0..<m]) [0..<m]))"

definition np_eye :: "nat \<Rightarrow> real list list" where
  "np_eye m = map (\<lambda>i. map (\<lambda>j. if i = j then 1 else 0) [0..<m]) [0..<m]"

definition transpose_sq :: "real list list \<Rightarrow> real list list" where
  "transpose_sq M = map (\<lambda>i. map (\<lambda>j. M ! j ! i) [0..<length M]) [0..<length M]"

definition mat_sub :: "real list list \<Rightarrow> real list list \<Rightarrow> real list list" where
  "mat_sub M N = map2 (map2 (-)) M N"

text \<open>\<^verbatim>\<open>while len(a) > 1 and a[0] == 0.0: a = a[1:]\<close>\<close>

fun strip_zeros :: "real list \<Rightarrow> real list" where
  "strip_zeros (x # y # ys) = (if x = 0 then strip_zeros (y # ys) else x # y # ys)"
| "strip_zeros xs = xs"

definition pad_to :: "nat \<Rightarrow> real list \<Rightarrow> real list" where
  "pad_to n v = v @ replicate (n - length v) 0"

text \<open>
  Modelled from the spec: \<^verbatim>\<open>scipy.signal.lfilter_zi(b, a)\<close> (scipy, not in the file)
  computes "the filter's steady-state response to a unit step (the zi vector) from b, a
  alone", as the solution of \<open>zi = A zi + B\<close> for the state-space form of the filter:
  \<^verbatim>\<open>
    while len(a) > 1 and a[0] == 0.0:
        a = a[1:]
    if a.size < 1:
        raise ValueError("There must be at least one nonzero `a` coefficient.")
    if a[0] != 1.0:
        # Normalize the coefficients so a[0] == 1.
        b = b / a[0]
        a = a / a[0]
    n = max(len(a), len(b))
    # Pad a or b with zeros so they are the same length.
    ...
    IminusA = np.eye(n - 1) - linalg.companion(a).T
    B = b[1:] - a[1:] * b[0]
    # Solve zi = A*zi + B
    zi = np.linalg.solve(IminusA, B)
  \<close>
  When \<open>a\<close> consists of zeros the floating-point division gives NaN and the routine goes on
  with it; exact reals do not follow it there, and the model ends with an error that
  stands for it.
\<close>

definition lfilter_zi :: "real list \<Rightarrow> real list \<Rightarrow> error + real list" where
  "lfilter_zi b a =
     (let a1 = strip_zeros a in
      if length a1 < 1 then
        Inl (ValueError ''There must be at least one nonzero `a` coefficient.'')
      else if a1 ! 0 = 0 then Inl (ValueError ''not modelled: division by zero gives NaN'')
      else
        let b2 = map (\<lambda>v. v / a1 ! 0) b;
            a2 = map (\<lambda>v. v / a1 ! 0) a1;
            n = max (length a2) (length b2);
            a3 = pad_to n a2;
            b3 = pad_to n b2
        in
        ebind (companion a3) (\<lambda>C.
        let IminusA = mat_sub (np_eye (n - 1)) (transpose_sq C);
            B = map2 (\<lambda>bv av. bv - av * b3 ! 0) (tl b3) (tl a3)
        in np_solve IminusA B))"

subsection \<open>The linear filter\<close>

text \<open>
  Modelled from the spec: \<^verbatim>\<open>scipy.signal.lfilter(b, a, x, axis, zi)\<close> (scipy, not in the
  file) is the "underlying filter primitive": the direct form II transposed filter, with
  \<open>b\<close> and \<open>a\<close> "implicitly normalized by \<open>a[0]\<close>" and padded with zeros to a common length
  \<open>n\<close>. One step takes the state \<open>z\<close> (\<open>n - 1\<close> delays) and a sample \<open>x\<close> to the output
  \<open>y = z[0] + b[0] x\<close> and the state \<open>z'[i] = z[i+1] + b[i+1] x - a[i+1] y\<close>, where \<open>z[n-1]\<close> is
  0. Along the axis every one-dimensional section of the array is filtered on its own,
  from the section of \<open>zi\<close> at the same place. \<open>zi\<close> must have the shape of \<open>x\<close> with
  \<open>n - 1\<close> along the axis. Where \<open>a[0] = 0\<close> the floating-point result is infinite or NaN;
  the entries that the model gives there mean nothing.
\<close>

definition filt_step :: "real list \<Rightarrow> real list \<Rightarrow> real list \<Rightarrow> real \<Rightarrow> real \<times> real list" where
  "filt_step nb na z x =
     (let n = length nb;
          y = (if n > 1 then z ! 0 + nb ! 0 * x else x * nb ! 0)
      in (y, map (\<lambda>i. (if i + 1 < n - 1 then z ! (i + 1) else 0)
                       + x * nb ! (i + 1) - y * na ! (i + 1)) [0..<n - 1]))"

fun filt_run :: "real list \<Rightarrow> real list \<Rightarrow> real list \<Rightarrow> real list \<Rightarrow> real list \<times> real list" where
  "filt_run nb na z [] = ([], z)"
| "filt_run nb na z (x # xs) =
     (let (y, z') = filt_step nb na z x;
          (ys, zf) = filt_run nb na z' xs
      in (y # ys, zf))"

definition lfilter1 :: "real list \<Rightarrow> real list \<Rightarrow> real list \<Rightarrow> real list \<Rightarrow> real list \<times> real list" where
  "lfilter1 b a z xs =
     (let n = max (length a) (length b);
          nb = map (\<lambda>v. v / a ! 0) (pad_to n b);
          na = map (\<lambda>v. v / a ! 0) (pad_to n a)
      in filt_run nb na z xs)"

text \<open>The one-dimensional section of an array along the axis \<open>k\<close> through the index \<open>idx\<close>.\<close>

definition section_along :: "ndarray \<Rightarrow> nat \<Rightarrow> nat list \<Rightarrow> real list" where
  "section_along a k idx = map (\<lambda>m. item a (idx[k := m])) [0..<shape a ! k]"

definition msg_zi_shape :: string where
  "msg_zi_shape = ''The number of initial conditions must be max([len(a),len(b)]) - 1''"

definition lfilter ::
  "real list \<Rightarrow> real list \<Rightarrow> ndarray \<Rightarrow> nat \<Rightarrow> ndarray \<Rightarrow> error + (ndarray \<times> ndarray)" where
  "lfilter b a x k zi =
     (let n = max (length a) (length b) in
      if a = [] then Inl (ValueError ''a is empty'')
      else if shape zi \<noteq> (shape x)[k := n - 1] then Inl (ValueError msg_zi_shape)
      else
        Inr (\<lparr>shape = shape x,
              item = (\<lambda>idx. fst (lfilter1 b a (section_along zi k idx) (section_along x k idx))
                              ! (idx ! k))\<rparr>,
             \<lparr>shape = shape zi,
              item = (\<lambda>idx. snd (lfilter1 b a (section_along zi k idx) (section_along x k idx))
                              ! (idx ! k))\<rparr>))"

subsection \<open>The forward-backward filter\<close>

text \<open>
  \<^verbatim>\<open>_filtfilt(b, a, x, axis=-1, padtype='odd', padlen=None)\<close>, statement by statement (the
  source is lines 335 to 398 of the file). \<^verbatim>\<open>padtype\<close> is a string or \<^verbatim>\<open>None\<close>,
  \<^verbatim>\<open>padlen\<close> an integer or \<^verbatim>\<open>None\<close>.
  \<^verbatim>\<open>
    if padtype not in ['even', 'odd', 'constant', None]:
        raise ValueError(...)
    ntaps = max(len(a), len(b))
    if padtype is None:
        padlen = 0
    if padlen is None:
        edge = ntaps * 3
    else:
        edge = padlen
    if x.shape[axis] <= edge:
        raise ValueError("The length of the input vector x must be at least "
                         "padlen, which is %d." % edge)
    if padtype is not None and edge > 0:
        if padtype == 'even':
            ext = even_ext(x, edge, axis=axis)
        elif padtype == 'odd':
            ext = odd_ext(x, edge, axis=axis)
        else:
            ext = const_ext(x, edge, axis=axis)
    else:
        ext = x
    zi = lfilter_zi(b, a)
    zi_shape = [1] * x.ndim
    zi_shape[axis] = zi.size
    zi = np.reshape(zi, zi_shape)
    x0 = axis_slice(ext, stop=1, axis=axis)
    (y, zf) = lfilter(b, a, ext, axis=axis, zi=zi * x0)
    y0 = axis_slice(y, start=-1, axis=axis)
    (y, zf) = lfilter(b, a, axis_reverse(y, axis=axis), axis=axis, zi=zi * y0)
    y = axis_reverse(y, axis=axis)
    if edge > 0:
        y = axis_slice(y, start=edge, stop=-edge, axis=axis)
    return y
  \<close>
\<close>

definition effective_edge :: "real list \<Rightarrow> real list \<Rightarrow> string option \<Rightarrow> int option \<Rightarrow> int" where
  "effective_edge b a padtype padlen =
     (let ntaps = max (length a) (length b);
          padlen' = (if padtype = None then Some 0 else padlen)
      in case padlen' of None \<Rightarrow> int ntaps * 3 | Some p \<Rightarrow> p)"

text \<open>The part after the check of the length (lines 360 to 398), on the resolved axis.\<close>

definition filtfilt_stages ::
  "real list \<Rightarrow> real list \<Rightarrow> ndarray \<Rightarrow> nat \<Rightarrow> string option \<Rightarrow> int \<Rightarrow> error + ndarray" where
  "filtfilt_stages b a x k padtype edge =
     ebind (if padtype \<noteq> None \<and> edge > 0
            then (if padtype = Some ''even'' then even_ext x edge k
                  else if padtype = Some ''odd'' then odd_ext x edge k
                  else const_ext x edge k)
            else Inr x) (\<lambda>ext.
     ebind (lfilter_zi b a) (\<lambda>zi.
     let zi_shape = (replicate (length (shape x)) 1)[k := length zi];
         zi' = reshape_along zi zi_shape k;
         x0 = axis_slice ext None (Some 1) None k
     in
     ebind (nd_binop (*) zi' x0) (\<lambda>z0.
     ebind (lfilter b a ext k z0) (\<lambda>(y, zf).
     let y0 = axis_slice y (Some (- 1)) None None k in
     ebind (nd_binop (*) zi' y0) (\<lambda>z1.
     ebind (lfilter b a (axis_reverse y k) k z1) (\<lambda>(y, zf).
     let y = axis_reverse y k in
     Inr (if edge > 0 then axis_slice y (Some edge) (Some (- edge)) None k else y)))))))"

text \<open>The checks of the arguments (lines 335 to 358), then the stages.\<close>

definition fb_filtfilt ::
  "real list \<Rightarrow> real list \<Rightarrow> ndarray \<Rightarrow> int \<Rightarrow> string option \<Rightarrow> int option \<Rightarrow> error + ndarray" where
  "fb_filtfilt b a x axis padtype padlen =
     (if padtype \<notin> set [Some ''even'', Some ''odd'', Some ''constant'', None]
      then Inl (ValueError msg_padtype)
      else
        let edge = effective_edge b a padtype padlen in
        ebind (resolve_axis (length (shape x)) axis) (\<lambda>k.
        if int (shape x ! k) \<le> edge then Inl InsufficientDataLength
        else filtfilt_stages b a x k padtype edge))"

text \<open>The one-dimensional array of a list of samples, and the indices within a shape.\<close>

definition array1 :: "real list \<Rightarrow> ndarray" where
  "array1 xs = \<lparr>shape = [length xs], item = (\<lambda>idx. xs ! (idx ! 0))\<rparr>"


subsection \<open>Stable filters\<close>

text \<open>
  The filter with the coefficients \<open>b\<close> and \<open>a\<close> has the transfer function
  \<open>(b[0] + b[1] / z + ...) / (a[0] + a[1] / z + ...)\<close>. Its poles are the roots of the
  denominator \<open>a[0] z\<^sup>m + a[1] z\<^sup>m\<^sup>-\<^sup>1 + ... + a[m]\<close>, where \<open>m + 1\<close> is the length of \<open>a\<close>. The
  filter is stable when every pole lies strictly inside the unit circle: the effect of a past
  input, and of a rounding error, then dies away. This is a property of the coefficients,
  which the routine does not check.
\<close>

definition stable :: "real list \<Rightarrow> bool" where
  "stable a =
     (\<forall>z :: complex.
        (\<Sum>i < length a. complex_of_real (a ! i) * z ^ (length a - 1 - i)) = 0 \<longrightarrow> cmod z < 1)"

subsection \<open>Notions used in the proofs about the filter\<close>

text \<open>An index that is within the shape along every axis but perhaps \<open>k\<close>.\<close>

definition off_axis :: "nat list \<Rightarrow> nat \<Rightarrow> nat list \<Rightarrow> bool" where
  "off_axis sh k idx = (length idx = length sh \<and> (\<forall>j < length sh. j \<noteq> k \<longrightarrow> idx ! j < sh ! j))"

text \<open>The extensions, one pass of the filter and the whole routine on one section.\<close>

definition odd_ext1 :: "real list \<Rightarrow> nat \<Rightarrow> real list" where
  "odd_ext1 xs e =
     map (\<lambda>j. 2 * xs ! 0 - xs ! (e - j)) [0..<e] @ xs
       @ map (\<lambda>j. 2 * xs ! (length xs - 1) - xs ! (length xs - 2 - j)) [0..<e]"

definition even_ext1 :: "real list \<Rightarrow> nat \<Rightarrow> real list" where
  "even_ext1 xs e =
     map (\<lambda>j. xs ! (e - j)) [0..<e] @ xs @ map (\<lambda>j. xs ! (length xs - 2 - j)) [0..<e]"

definition const_ext1 :: "real list \<Rightarrow> nat \<Rightarrow> real list" where
  "const_ext1 xs e = replicate e (xs ! 0) @ xs @ replicate e (xs ! (length xs - 1))"

definition pass1 :: "real list \<Rightarrow> real list \<Rightarrow> real list \<Rightarrow> real list \<Rightarrow> real list" where
  "pass1 b a zi xs = fst (lfilter1 b a (map (\<lambda>v. v * xs ! 0) zi) xs)"

definition filtfilt1 ::
  "real list \<Rightarrow> real list \<Rightarrow> real list \<Rightarrow> string option \<Rightarrow> int \<Rightarrow> real list \<Rightarrow> real list" where
  "filtfilt1 b a zi padtype e xs =
     (let ext = (if padtype \<noteq> None \<and> e > 0
                 then (if padtype = Some ''even'' then even_ext1 xs (nat e)
                       else if padtype = Some ''odd'' then odd_ext1 xs (nat e)
                       else const_ext1 xs (nat e))
                 else xs);
          y = rev (pass1 b a zi (rev (pass1 b a zi ext)))
      in if e > 0 then take (length xs) (drop (nat e) y) else y)"

section \<open>Results: sign copy\<close>

lemma fb_copysign_nonzero:
  "x2 \<noteq> 0 \<Longrightarrow> \<bar>fb_copysign x1 x2\<bar> = \<bar>x1\<bar> \<and> sgn (fb_copysign x1 x2) = sgn x1 * sgn x1 * sgn x2"
  by (simp add: fb_copysign_def abs_mult sgn_mult abs_sgn_eq)

text \<open>
  Claim C9 at \<open>x2 = 0\<close>: the routine returns \<open>0\<close>, whose magnitude is not that of \<open>x1 = 1\<close>.
\<close>

theorem fb_copysign_zero_sign: "fb_copysign 1 0 = 0 \<and> \<bar>fb_copysign 1 0\<bar> \<noteq> \<bar>1::real\<bar>"
  by (simp add: fb_copysign_def)

section \<open>Results: histogram counting\<close>


text \<open>A weighted count that does not fit is not kept: the entry is the platform's word.\<close>

lemma fb_bincount_out_of_range:
  "fb_bincount indefinite [0] (Some [10 ^ 30]) (Some 2)
     = Inr (IntArray [word_of_int (- (2 ^ 63)), 0])"
  by (simp add: fb_bincount_def np_bincount_def cast_long_def in_long_range_def trunc_def
      indefinite_def numeral_2_eq_2)



section \<open>Results: FIR filter design\<close>

lemma fb_firwin2_raises:
  "firwin2_checks numtaps freq gain nfreqs nyq = Inl e \<Longrightarrow>
   fb_firwin2 numtaps freq gain nfreqs window nyq = (freq, Inl e)"
  by (simp add: fb_firwin2_def)

lemma fb_firwin2_proceeds:
  "firwin2_checks numtaps freq gain nfreqs nyq = Inr nf \<Longrightarrow>
   fb_firwin2 numtaps freq gain nfreqs window nyq =
     (tweak_freq freq, firwin2_taps numtaps (tweak_freq freq) gain nf window nyq)"
  by (simp add: fb_firwin2_def Let_def)

lemma firwin2_checks_even_nyquist:
  assumes "numtaps mod 2 = 0" "gain \<noteq> []" "last gain \<noteq> 0"
  shows "\<exists>e. firwin2_checks numtaps freq gain nfreqs nyq = Inl e \<and> InvalidArgument e"
  using assms
  by (auto simp: firwin2_checks_def InvalidArgument_def validation_messages_def Let_def
           split: option.splits)

text \<open>
  Claim C5. A call with an even \<open>numtaps\<close> and a nonzero gain at the Nyquist frequency
  (\<open>gain[-1]\<close>, so \<open>gain\<close> is not empty) raises an \<open>InvalidArgument\<close> error and returns no
  coefficients, whatever the other arguments are; \<open>freq\<close> is left as it was.
\<close>

theorem fb_firwin2_even_nyquist:
  assumes "numtaps mod 2 = 0" "gain \<noteq> []" "last gain \<noteq> 0"
  shows "\<exists>e. fb_firwin2 numtaps freq gain nfreqs window nyq = (freq, Inl e) \<and> InvalidArgument e"
  using firwin2_checks_even_nyquist[OF assms] fb_firwin2_raises by blast

lemma length_tweak_step: "length (tweak_step k f) = length f"
  by (simp add: tweak_step_def)

lemma length_fold_tweak: "length (fold tweak_step ks f) = length f"
  by (induction ks arbitrary: f) (simp_all add: length_tweak_step)

lemma length_tweak_freq: "length (tweak_freq f) = length f"
  by (simp add: tweak_freq_def length_fold_tweak)

lemma length_np_linspace: "0 \<le> n \<Longrightarrow> length (np_linspace a b n) = nat n"
  by (auto simp: np_linspace_def)

lemma length_get_window: "0 \<le> M \<Longrightarrow> length (get_window w M) = nat M"
  by (auto simp: get_window_def)

lemma firwin2_taps_length:
  assumes "0 < numtaps" "numtaps < nf" "freq \<noteq> []" "length gain = length freq"
  shows "\<exists>out. firwin2_taps numtaps freq gain nf window nyq = Inr out \<and> int (length out) = numtaps"
proof -
  let ?x = "np_linspace 0 nyq nf"
  have lx: "length ?x = nat nf" using assms by (simp add: length_np_linspace)
  obtain fx where fx: "np_interp ?x freq gain = Inr fx" "length fx = nat nf"
    using assms lx by (simp add: np_interp_def)
  define fx2 where "fx2 = map2 (\<lambda>f s. complex_of_real f * s) fx
     (map (\<lambda>v. exp (- (complex_of_real (real_of_int (numtaps - 1) / 2)) * \<i>
                                   * complex_of_real pi * complex_of_real v / complex_of_real nyq)) ?x)"
  have l2: "length fx2 = nat nf" by (simp add: fx2_def fx lx)
  obtain out_full where of: "irfft fx2 = Inr out_full" "length out_full = nat (2 * (nf - 1))"
    using assms l2 by (auto simp: irfft_def Let_def)
  have ls: "length (slice_to numtaps out_full) = nat numtaps"
    using assms of by (simp add: slice_to_def)
  have "\<exists>out. (case window of
                  Some w \<Rightarrow> np_multiply1 (slice_to numtaps out_full) (get_window w numtaps)
                | None \<Rightarrow> Inr (map (\<lambda>v. v * 1) (slice_to numtaps out_full))) = Inr out
        \<and> int (length out) = numtaps"
    using assms ls by (cases window) (simp_all add: np_multiply1_def length_get_window)
  then show ?thesis
    unfolding firwin2_taps_def Let_def using fx of by (simp add: fx2_def)
qed

lemma ceil_log2_bound:
  assumes "0 < (n::int)"
  shows "n \<le> 2 ^ nat \<lceil>log 2 (real_of_int n)\<rceil>"
proof -
  have "nat n \<le> 2 ^ ceillog2 (nat n)" by (rule le_two_power_ceillog2)
  moreover have "ceillog2 (nat n) = nat \<lceil>log 2 (real_of_int n)\<rceil>"
    using assms by (simp add: ceillog2_def)
  ultimately have "nat n \<le> 2 ^ nat \<lceil>log 2 (real_of_int n)\<rceil>" by simp
  then have "int (nat n) \<le> int (2 ^ nat \<lceil>log 2 (real_of_int n)\<rceil>)"
    by (rule iffD2[OF of_nat_le_iff])
  then show ?thesis using assms by simp
qed

lemma np_diff_nth:
  "i < length xs - 1 \<Longrightarrow> np_diff xs ! i = xs ! Suc i - xs ! i"
  by (simp add: np_diff_def nth_butlast nth_tl)

lemma length_np_diff: "length (np_diff xs) = length xs - 1"
  by (simp add: np_diff_def)

lemma sorted_diff_nonneg:
  assumes "sorted xs" "v \<in> set (np_diff xs)"
  shows "0 \<le> v"
proof -
  from assms(2) obtain i where i: "i < length xs - 1" "v = np_diff xs ! i"
    by (metis in_set_conv_nth length_np_diff)
  then have "v = xs ! Suc i - xs ! i" by (simp add: np_diff_nth)
  moreover have "xs ! i \<le> xs ! Suc i" using assms(1) i by (simp add: sorted_iff_nth_mono)
  ultimately show ?thesis by simp
qed

lemma three_equal_count:
  assumes "Suc (Suc i) < length xs" "xs ! i = v" "xs ! Suc i = v" "xs ! Suc (Suc i) = v"
  shows "3 \<le> count_list xs v"
proof -
  have "xs = take i xs @ xs ! i # xs ! Suc i # xs ! Suc (Suc i) # drop (Suc (Suc (Suc i))) xs"
    using assms(1) by (simp add: Cons_nth_drop_Suc)
  then have "count_list xs v = count_list (take i xs @ v # v # v # drop (Suc (Suc (Suc i))) xs) v"
    using assms by simp
  then show ?thesis by simp
qed

lemma no_triple_d2:
  assumes "sorted xs" "\<forall>v. count_list xs v \<le> 2"
    and "w \<in> set (map2 (+) (butlast (np_diff xs)) (tl (np_diff xs)))"
  shows "w \<noteq> 0"
proof
  assume "w = 0"
  let ?d = "np_diff xs"
  from assms(3) obtain i where i: "i < length ?d - 1" "w = ?d ! i + ?d ! Suc i"
    by (auto simp: in_set_conv_nth nth_butlast nth_tl)
  then have i2: "Suc (Suc i) < length xs" by (simp add: length_np_diff)
  have "w = xs ! Suc (Suc i) - xs ! i"
    using i i2 by (simp add: np_diff_nth)
  with \<open>w = 0\<close> have e: "xs ! Suc (Suc i) = xs ! i" by simp
  have "xs ! i \<le> xs ! Suc i" "xs ! Suc i \<le> xs ! Suc (Suc i)"
    using assms(1) i2 by (simp_all add: sorted_iff_nth_mono)
  with e have "xs ! Suc i = xs ! i" by simp
  with e i2 have "3 \<le> count_list xs (xs ! i)" by (intro three_equal_count) simp_all
  moreover have "count_list xs (xs ! i) \<le> 2" using assms(2) by blast
  ultimately show False by simp
qed

lemma firwin2_checks_valid:
  assumes "length freq = length gain" "freq \<noteq> []" "hd freq = 0" "last freq = nyq"
    and "sorted freq" "\<forall>v. count_list freq v \<le> 2"
    and "\<forall>nf. nfreqs = Some nf \<longrightarrow> numtaps < nf"
    and "last gain \<noteq> 0 \<longrightarrow> odd numtaps"
    and "0 < numtaps"
  shows "\<exists>nf. firwin2_checks numtaps freq gain nfreqs nyq = Inr nf \<and> numtaps < nf"
proof -
  have d: "\<not> (\<exists>v \<in> set (np_diff freq). v < 0)"
    using sorted_diff_nonneg[OF assms(5)] by (auto simp: not_less)
  have d2: "\<not> (\<exists>v \<in> set (map2 (+) (butlast (np_diff freq)) (tl (np_diff freq))). v = 0)"
    using no_triple_d2[OF assms(5,6)] by blast
  have ev: "\<not> (numtaps mod 2 = 0 \<and> last gain \<noteq> 0)"
    using assms(8) by (auto simp: odd_iff_mod_2_eq_one)
  show ?thesis
  proof (cases nfreqs)
    case None
    have "numtaps < 1 + 2 ^ nat \<lceil>log 2 (real_of_int numtaps)\<rceil>"
      using ceil_log2_bound[OF assms(9)] by simp
    then show ?thesis
      using assms(1-4,9) d d2 ev None by (simp add: firwin2_checks_def Let_def)
  next
    case (Some nf)
    then show ?thesis
      using assms(1-4,7) d d2 ev by (simp add: firwin2_checks_def Let_def)
  qed
qed

text \<open>
  Claim C6, amended. For every valid input (\<open>freq\<close> and \<open>gain\<close> of equal length, \<open>freq\<close>
  starting at 0, ending at \<open>nyq\<close>, nondecreasing with no value occurring more than twice,
  \<open>numtaps\<close> less than \<open>nfreqs\<close> when \<open>nfreqs\<close> is given, \<open>numtaps\<close> odd whenever the gain at
  Nyquist is nonzero) with a positive \<open>numtaps\<close>, the routine returns exactly \<open>numtaps\<close>
  coefficients.
\<close>

theorem fb_firwin2_length:
  assumes "length freq = length gain" "freq \<noteq> []" "hd freq = 0" "last freq = nyq"
    and "sorted freq" "\<forall>v. count_list freq v \<le> 2"
    and "\<forall>nf. nfreqs = Some nf \<longrightarrow> numtaps < nf"
    and "last gain \<noteq> 0 \<longrightarrow> odd numtaps"
    and "0 < numtaps"
  shows "\<exists>out. snd (fb_firwin2 numtaps freq gain nfreqs window nyq) = Inr out
            \<and> int (length out) = numtaps"
proof -
  obtain nf where nf: "firwin2_checks numtaps freq gain nfreqs nyq = Inr nf" "numtaps < nf"
    using firwin2_checks_valid[OF assms] by blast
  have "tweak_freq freq \<noteq> []" "length gain = length (tweak_freq freq)"
    using assms(1,2) length_tweak_freq[of freq] by auto
  from firwin2_taps_length[OF assms(9) nf(2) this]
  show ?thesis by (simp add: fb_firwin2_proceeds[OF nf(1)])
qed

theorem fb_firwin2_length_witness:
  "\<exists>out. snd (fb_firwin2 3 [0, 1/2, 1/2, 1] [1, 1, 0, 0] None (Some Hamming) 1) = Inr out
            \<and> int (length out) = 3"
  using fb_firwin2_length[of "[0, 1/2, 1/2, 1]" "[1, 1, 0, 0]" 1 None 3 "Some Hamming"]
  by simp

text \<open>
  Claim C6 as stated fails without a positive \<open>numtaps\<close>: with \<open>numtaps = 0\<close> and the
  default \<open>nfreqs\<close>, every listed condition holds and \<^verbatim>\<open>log(numtaps, 2)\<close> raises.
\<close>

theorem fb_firwin2_zero_taps:
  "snd (fb_firwin2 0 [0, 1] [1, 0] None (Some Hamming) 1) = Inl (ValueError ''math domain error'')"
  by (simp add: fb_firwin2_def firwin2_checks_def np_diff_def)

theorem fb_firwin2_even_nyquist_witness:
  "fb_firwin2 4 [0, 1] [1, 1] None (Some Hamming) 1 = ([0, 1], Inl (ValueError msg_even_nyquist))
   \<and> InvalidArgument (ValueError msg_even_nyquist)"
  using fb_firwin2_even_nyquist[of 4 "[1, 1]" "[0, 1]" None "Some Hamming" 1]
  by (simp add: fb_firwin2_def firwin2_checks_def np_diff_def InvalidArgument_def validation_messages_def)

text \<open>
  Claim C8 at a \<open>freq\<close> with a repeated value: the call changes the caller's list.
\<close>

theorem fb_firwin2_mutates_freq:
  "fst (fb_firwin2 3 [0, 1/2, 1/2, 1] [1, 1, 0, 0] None (Some Hamming) 1)
     = [0, 1/2 - float_eps, 1/2 + float_eps, 1]
   \<and> fst (fb_firwin2 3 [0, 1/2, 1/2, 1] [1, 1, 0, 0] None (Some Hamming) 1) \<noteq> [0, 1/2, 1/2, 1]"
proof -
  have c: "\<exists>nf. firwin2_checks 3 [0, 1/2, 1/2, 1] [1, 1, 0, 0] None 1 = Inr nf"
    by (simp add: firwin2_checks_def np_diff_def)
  have t: "tweak_freq [0, 1/2, 1/2, 1] = [0, 1/2 - float_eps, 1/2 + float_eps, 1]"
    by (simp add: tweak_freq_def tweak_step_def upt_rec float_eps_def)
  from c t show ?thesis
    by (auto simp: fb_firwin2_proceeds float_eps_def)
qed

section \<open>Results: membership testing\<close>

subsection \<open>The stable argsort\<close>

lemma argsort_pairs: "argsort ar = map snd (sorted_pairs ar)"
  by (simp add: argsort_def sorted_pairs_def)

lemma set_sorted_pairs: "set (sorted_pairs ar) = set (zip ar [0..<length ar])"
  by (simp add: sorted_pairs_def)

lemma length_sorted_pairs: "length (sorted_pairs ar) = length ar"
  by (simp add: sorted_pairs_def)

lemma sorted_pairs_mem:
  assumes "p \<in> set (sorted_pairs ar)"
  shows "snd p < length ar \<and> fst p = ar ! snd p"
proof -
  from assms have "p \<in> set (zip ar [0..<length ar])" by (simp add: set_sorted_pairs)
  then obtain i where "i < length ar" "p = (ar ! i, [0..<length ar] ! i)"
    by (auto simp: set_zip)
  then show ?thesis by simp
qed

lemma length_argsort: "length (argsort ar) = length ar"
  by (simp add: argsort_pairs length_sorted_pairs)

lemma distinct_zip_upt: "distinct (zip ar [0..<length ar])"
  by (rule distinct_zipI2) simp

lemma inj_snd_pairs: "inj_on snd (set (zip ar [0..<length ar]))"
proof -
  have "distinct (map snd (zip ar [0..<length ar]))" by simp
  then show ?thesis by (simp only: distinct_map)
qed

lemma distinct_argsort: "distinct (argsort ar)"
  unfolding argsort_pairs distinct_map
  using distinct_zip_upt[of ar] inj_snd_pairs[of ar]
  by (simp add: sorted_pairs_def)

lemma set_argsort: "set (argsort ar) = {0..<length ar}"
proof -
  have "set (argsort ar) = snd ` set (zip ar [0..<length ar])"
    by (simp add: argsort_pairs set_sorted_pairs)
  also have "\<dots> = set (map snd (zip ar [0..<length ar]))" by (simp only: set_map)
  also have "map snd (zip ar [0..<length ar]) = [0..<length ar]" by (rule map_snd_zip) simp
  finally show ?thesis by simp
qed

lemma argsort_nth_less: "p < length ar \<Longrightarrow> argsort ar ! p < length ar"
  using set_argsort[of ar] length_argsort[of ar] nth_mem[of p "argsort ar"] by auto

lemma take_idx_argsort: "take_idx ar (argsort ar) = Inr (map (\<lambda>i. ar ! i) (argsort ar))"
  by (simp add: take_idx_def set_argsort)

lemma sorted_values: "map (\<lambda>i. ar ! i) (argsort ar) = map fst (sorted_pairs ar)"
  by (simp add: argsort_pairs sorted_pairs_mem)

lemma sorted_argsort: "sorted (map (\<lambda>i. ar ! i) (argsort ar))"
  unfolding sorted_values by (simp add: sorted_pairs_def)

lemma insort_key_then_index:
  assumes "sorted_wrt key_then_index L" "\<forall>q \<in> set L. snd p < snd q"
  shows "sorted_wrt key_then_index (insort_key fst p L)"
  using assms
proof (induction L)
  case Nil
  then show ?case by simp
next
  case (Cons y ys)
  show ?case
  proof (cases "fst p \<le> fst y")
    case True
    have "key_then_index p q" if "q \<in> set (y # ys)" for q
    proof -
      have "fst y \<le> fst q" using Cons.prems(1) that by (auto simp: key_then_index_def)
      with True have "fst p \<le> fst q" by simp
      moreover have "snd p < snd q" using Cons.prems(2) that by blast
      ultimately show ?thesis by (auto simp: key_then_index_def)
    qed
    with True Cons.prems(1) show ?thesis by simp
  next
    case False
    then have "key_then_index y p" by (simp add: key_then_index_def not_le)
    moreover have "sorted_wrt key_then_index (insort_key fst p ys)"
      using Cons by simp
    ultimately show ?thesis using False Cons.prems(1) by (auto simp: set_insort_key)
  qed
qed

lemma sort_key_then_index:
  "sorted_wrt (\<lambda>p q. snd p < snd q) ps \<Longrightarrow> sorted_wrt key_then_index (sort_key fst ps)"
proof (induction ps)
  case Nil
  then show ?case by simp
next
  case (Cons p ps)
  then show ?case by (auto intro!: insort_key_then_index)
qed

lemma zip_upt_index_sorted: "sorted_wrt (\<lambda>p q. snd p < snd q) (zip ar [0..<length ar])"
  by (simp add: sorted_wrt_iff_nth_less)

lemma sorted_pairs_stable: "sorted_wrt key_then_index (sorted_pairs ar)"
  unfolding sorted_pairs_def by (rule sort_key_then_index[OF zip_upt_index_sorted])

lemma argsort_stable:
  assumes "p < q" "q < length ar"
  shows "ar ! (argsort ar ! p) < ar ! (argsort ar ! q)
       \<or> (ar ! (argsort ar ! p) = ar ! (argsort ar ! q) \<and> argsort ar ! p < argsort ar ! q)"
proof -
  let ?L = "sorted_pairs ar"
  have len: "length ?L = length ar" by (rule length_sorted_pairs)
  have k: "key_then_index (?L ! p) (?L ! q)"
    using sorted_pairs_stable[of ar] assms len by (simp add: sorted_wrt_iff_nth_less)
  have "fst (?L ! p) = ar ! snd (?L ! p)" "fst (?L ! q) = ar ! snd (?L ! q)"
    using sorted_pairs_mem[of _ ar] assms len by simp_all
  moreover have "argsort ar ! p = snd (?L ! p)" "argsort ar ! q = snd (?L ! q)"
    using assms len by (simp_all add: argsort_pairs)
  ultimately show ?thesis using k by (simp add: key_then_index_def)
qed

text \<open>The argsort of a permutation of \<open>0..<n\<close> is the inverse permutation.\<close>

lemma argsort_inverse:
  assumes "distinct perm" "set perm = {0..<length perm}" "i < length perm"
  shows "argsort perm ! i < length perm \<and> perm ! (argsort perm ! i) = i"
proof -
  let ?ps = "zip perm [0..<length perm]"
  let ?L = "sorted_pairs perm"
  have len: "length ?L = length perm" by (rule length_sorted_pairs)
  have "distinct (map fst ?ps)" using assms(1) by simp
  then have "inj_on fst (set ?ps)" "distinct ?ps" by (simp_all only: distinct_map)
  then have d: "distinct (map fst ?L)"
    by (simp add: distinct_map sorted_pairs_def)
  have s: "sorted (map fst ?L)" by (simp add: sorted_pairs_def)
  have "set (map fst ?L) = fst ` set ?ps" by (simp add: set_sorted_pairs)
  also have "\<dots> = set (map fst ?ps)" by (simp only: set_map)
  also have "map fst ?ps = perm" by (rule map_fst_zip) simp
  finally have "set (map fst ?L) = set [0..<length perm]" using assms(2) by simp
  with s d have "map fst ?L = [0..<length perm]"
    by (intro sorted_distinct_set_unique) simp_all
  then have "map fst ?L ! i = [0..<length perm] ! i" by simp
  then have f: "fst (?L ! i) = i" using assms(3) len by simp
  have "?L ! i \<in> set ?L" using assms(3) len by simp
  from sorted_pairs_mem[OF this] f
  have "snd (?L ! i) < length perm \<and> perm ! snd (?L ! i) = i" by simp
  moreover have "argsort perm ! i = snd (?L ! i)" using assms(3) len by (simp add: argsort_pairs)
  ultimately show ?thesis by simp
qed

lemma argsort_argsort:
  assumes "i < length ar"
  shows "argsort (argsort ar) ! i < length ar \<and> argsort ar ! (argsort (argsort ar) ! i) = i"
  using argsort_inverse[of "argsort ar" i] assms
  by (simp add: distinct_argsort set_argsort length_argsort)

subsection \<open>Membership on arrays without repetitions\<close>

lemma adjacent_equal_nth:
  "Suc p < length xs \<Longrightarrow> adjacent_equal xs ! p = (xs ! Suc p = xs ! p)"
  by (simp add: adjacent_equal_def nth_tl nth_butlast)

lemma length_adjacent_equal: "length (adjacent_equal xs) = length xs - 1"
  by (simp add: adjacent_equal_def)

lemma flag_nth:
  assumes "p < length xs"
  shows "(adjacent_equal xs @ [False]) ! p = (Suc p < length xs \<and> xs ! Suc p = xs ! p)"
proof (cases "Suc p < length xs")
  case True
  then have "p < length xs - 1" by simp
  with True show ?thesis
    by (simp add: nth_append length_adjacent_equal adjacent_equal_nth)
next
  case False
  with assms have "p = length xs - 1" by simp
  then show ?thesis using False by (simp add: nth_append length_adjacent_equal)
qed

lemma length_flag: "length (adjacent_equal xs @ [False]) = Suc (length xs - 1)"
  by (simp add: length_adjacent_equal)

lemma in1d_sorted_flags_correct:
  assumes d1: "distinct ar1"
  shows "\<exists>r. in1d_sorted_flags ar1 ar2 = Inr r \<and> length r = length ar1
           \<and> (\<forall>i < length ar1. r ! i = (ar1 ! i \<in> set ar2))"
proof -
  define ar where "ar = ar1 @ ar2"
  define n where "n = length ar"
  define order where "order = argsort ar"
  define sar where "sar = map (\<lambda>i. ar ! i) order"
  define flag where "flag = adjacent_equal sar @ [False]"
  define inv where "inv = argsort order"
  define indx where "indx = take (length ar1) inv"
  have n: "n = length ar1 + length ar2" by (simp add: n_def ar_def)
  have lo: "length order = n" by (simp add: order_def n_def length_argsort)
  have ls: "length sar = n" by (simp add: sar_def lo)
  have li: "length inv = n" by (simp add: inv_def length_argsort lo)
  have lf: "length flag = Suc (n - 1)" by (simp only: flag_def length_flag ls)
  have sar_nth: "sar ! q = ar ! (order ! q)" if "q < n" for q
    using that lo by (simp add: sar_def)
  have ar_left: "ar ! i = ar1 ! i" if "i < length ar1" for i
    using that by (simp add: ar_def nth_append)
  have ar_right: "ar ! k = ar2 ! (k - length ar1)" if "\<not> k < length ar1" for k
    using that by (simp add: ar_def nth_append)
  have inv: "inv ! i < n \<and> order ! (inv ! i) = i" if "i < n" for i
    using argsort_argsort[of i ar] that by (simp add: inv_def order_def n_def)
  have order_less: "order ! q < n" if "q < n" for q
    using argsort_nth_less[of q ar] that by (simp add: order_def n_def)
  have stable: "ar ! (order ! p) < ar ! (order ! q)
       \<or> (ar ! (order ! p) = ar ! (order ! q) \<and> order ! p < order ! q)" if "p < q" "q < n" for p q
    using argsort_stable[of p q ar] that by (simp add: order_def n_def)
  have sorted_sar: "sorted sar" unfolding sar_def order_def by (rule sorted_argsort)
  have indx_ok: "\<forall>p \<in> set indx. p < length flag"
  proof
    fix p assume "p \<in> set indx"
    then have "p \<in> set inv" unfolding indx_def by (rule in_set_takeD)
    then have "p \<in> {0..<length order}" by (simp only: inv_def set_argsort)
    then show "p < length flag" using lf lo by simp
  qed
  have l_indx: "length indx = length ar1" using li n by (simp add: indx_def)
  have run: "in1d_sorted_flags ar1 ar2 = Inr (map (\<lambda>p. flag ! p) indx)"
  proof -
    have "take_idx flag indx = Inr (map (\<lambda>p. flag ! p) indx)"
      using indx_ok unfolding take_idx_def by (rule if_P)
    then show ?thesis
      unfolding indx_def inv_def flag_def sar_def order_def ar_def
      by (simp only: in1d_sorted_flags_def Let_def take_idx_argsort ebind_def sum.case)
  qed
  have val: "flag ! (indx ! i) = (ar1 ! i \<in> set ar2)" if i: "i < length ar1" for i
  proof -
    have i_n: "i < n" using i n by simp
    define p where "p = inv ! i"
    have p: "p < n" "order ! p = i" using inv[OF i_n] by (simp_all add: p_def)
    have ip: "indx ! i = p" using i by (simp add: p_def indx_def)
    have sp: "sar ! p = ar1 ! i" using p by (simp add: sar_nth ar_left i)
    have fl: "flag ! p = (Suc p < n \<and> sar ! Suc p = sar ! p)"
      using flag_nth[of p sar] p ls by (simp add: flag_def)
    have "(Suc p < n \<and> sar ! Suc p = sar ! p) = (ar1 ! i \<in> set ar2)"
    proof
      assume a: "Suc p < n \<and> sar ! Suc p = sar ! p"
      then have a1: "Suc p < n" and a2: "sar ! Suc p = sar ! p" by simp_all
      define k where "k = order ! Suc p"
      have k_n: "k < n" using a1 order_less by (simp add: k_def)
      have "ar ! k = sar ! Suc p" using sar_nth[OF a1] by (simp add: k_def)
      with a2 sp have vk: "ar ! k = ar1 ! i" by simp
      have "ar ! i < ar ! k \<or> (ar ! i = ar ! k \<and> i < k)"
        using stable[of p "Suc p"] a1 p by (simp add: k_def)
      with vk have ik: "i < k" by (simp add: ar_left i)
      have nk: "\<not> k < length ar1"
      proof
        assume kl: "k < length ar1"
        with vk have "ar1 ! k = ar1 ! i" by (simp add: ar_left)
        with d1 i kl have "k = i" by (simp add: nth_eq_iff_index_eq)
        with ik show False by simp
      qed
      then have "ar ! k = ar2 ! (k - length ar1)" by (rule ar_right)
      moreover have "k - length ar1 < length ar2" using k_n nk n by simp
      ultimately show "ar1 ! i \<in> set ar2" using vk by (metis nth_mem)
    next
      assume "ar1 ! i \<in> set ar2"
      then obtain j where j: "j < length ar2" "ar2 ! j = ar1 ! i"
        by (auto simp: in_set_conv_nth)
      define k where "k = length ar1 + j"
      have k: "k < n" "i < k" using j i n by (simp_all add: k_def)
      have vk: "ar ! k = ar1 ! i" using j ar_right[of k] by (simp add: k_def)
      define q where "q = inv ! k"
      have q: "q < n" "order ! q = k" using inv[OF k(1)] by (simp_all add: q_def)
      have "p \<noteq> q" using p(2) q(2) k(2) by auto
      moreover have "\<not> q < p"
      proof
        assume "q < p"
        from stable[OF this p(1)] p q
        have "ar ! k < ar ! i \<or> (ar ! k = ar ! i \<and> k < i)" by simp
        with k vk show False by (simp add: ar_left i)
      qed
      ultimately have pq: "p < q" by simp
      then have sp1: "Suc p < n" using q(1) by simp
      have "sar ! p \<le> sar ! Suc p" "sar ! Suc p \<le> sar ! q"
        using sorted_sar pq q(1) sp1 ls by (simp_all add: sorted_iff_nth_mono)
      moreover have "sar ! q = ar1 ! i" using sar_nth[OF q(1)] q(2) vk by simp
      ultimately have "sar ! Suc p = sar ! p" using sp by simp
      with sp1 show "Suc p < n \<and> sar ! Suc p = sar ! p" by simp
    qed
    with fl ip show ?thesis by simp
  qed
  show ?thesis
    using run l_indx val by simp
qed

subsection \<open>Deduplication\<close>

lemma adjacent_differ_Cons:
  "adjacent_differ (y # z # zs) = (z \<noteq> y) # adjacent_differ (z # zs)"
  by (simp add: adjacent_differ_def)

lemma length_adjacent_differ: "length (adjacent_differ xs) = length xs - 1"
  by (simp add: adjacent_differ_def)

lemma mask_changes:
  "map fst (filter snd (zip ys (adjacent_differ (y # ys)))) = tl (remdups_adj (y # ys))"
proof (induction ys arbitrary: y)
  case Nil
  then show ?case by (simp add: adjacent_differ_def)
next
  case (Cons z zs)
  show ?case
    using Cons[of z] by (simp add: adjacent_differ_Cons)
qed

lemma take_mask_changes:
  assumes "xs \<noteq> []"
  shows "take_mask xs ([True] @ adjacent_differ xs) = Inr (remdups_adj xs)"
proof -
  obtain y ys where xs: "xs = y # ys" using assms by (cases xs) auto
  have "map fst (filter snd (zip (y # ys) (True # adjacent_differ (y # ys))))
          = y # tl (remdups_adj (y # ys))"
    by (simp add: mask_changes)
  then show ?thesis
    by (simp add: take_mask_def xs length_adjacent_differ)
qed

lemma remdups_adj_nth0: "remdups_adj (y # ys) ! 0 = y"
  by (metis hd_conv_nth hd_remdups_adj list.sel(1) remdups_adj_Nil_iff list.distinct(1))

lemma cumsum_from_shift: "p < length fs \<Longrightarrow> cumsum_from a fs ! p = a + cumsum_from 0 fs ! p"
proof (induction fs arbitrary: a p)
  case Nil
  then show ?case by simp
next
  case (Cons f fs)
  show ?case
  proof (cases p)
    case 0
    then show ?thesis by (simp add: Let_def)
  next
    case (Suc p')
    with Cons.prems have p': "p' < length fs" by simp
    show ?thesis
      using Cons.IH[OF p', of "a + (if f then 1 else 0)"] Cons.IH[OF p', of "if f then 1 else 0"]
      by (simp add: Let_def Suc)
  qed
qed

lemma length_cumsum_from: "length (cumsum_from a fs) = length fs"
  by (induction fs arbitrary: a) (simp_all add: Let_def)

text \<open>The running count of changes is the position of each entry's value among the
  distinct values.\<close>

lemma cumsum_changes:
  assumes "p < length ys"
  shows "cumsum_from 0 (adjacent_differ (y # ys)) ! p < length (remdups_adj (y # ys))
       \<and> remdups_adj (y # ys) ! (cumsum_from 0 (adjacent_differ (y # ys)) ! p) = ys ! p"
  using assms
proof (induction ys arbitrary: y p)
  case Nil
  then show ?case by simp
next
  case (Cons z zs)
  let ?c = "\<lambda>y p. cumsum_from 0 (adjacent_differ (y # zs)) ! p"
  show ?case
  proof (cases p)
    case 0
    then show ?thesis by (simp add: adjacent_differ_Cons Let_def remdups_adj_nth0)
  next
    case (Suc p')
    with Cons.prems have p': "p' < length zs" by simp
    then have pl: "p' < length (adjacent_differ (z # zs))" by (simp add: length_adjacent_differ)
    note IH = Cons.IH[OF p', of z]
    show ?thesis
    proof (cases "z = y")
      case True
      then show ?thesis
        using IH cumsum_from_shift[OF pl, of 0] by (simp add: adjacent_differ_Cons Let_def Suc)
    next
      case False
      then show ?thesis
        using IH cumsum_from_shift[OF pl, of 1] by (simp add: adjacent_differ_Cons Let_def Suc)
    qed
  qed
qed

lemma iflag_index:
  assumes "p < length xs"
  shows "map (\<lambda>c. c - 1) (np_cumsum ([True] @ adjacent_differ xs)) ! p < length (remdups_adj xs)
       \<and> remdups_adj xs ! (map (\<lambda>c. c - 1) (np_cumsum ([True] @ adjacent_differ xs)) ! p) = xs ! p"
proof -
  obtain y ys where xs: "xs = y # ys" using assms by (cases xs) auto
  show ?thesis
  proof (cases p)
    case 0
    then show ?thesis by (simp add: xs np_cumsum_def Let_def remdups_adj_nth0)
  next
    case (Suc p')
    with assms have p': "p' < length ys" by (simp add: xs)
    then have pl: "p' < length (adjacent_differ (y # ys))" by (simp add: length_adjacent_differ)
    show ?thesis
      using cumsum_changes[OF p', of y] cumsum_from_shift[OF pl, of 1] p'
      by (simp add: xs np_cumsum_def Let_def Suc length_cumsum_from length_adjacent_differ)
  qed
qed

lemma sorted_distinct_adj:
  "sorted (ys::('a::linorder) list) \<Longrightarrow> distinct_adj ys \<Longrightarrow> distinct ys"
proof (induction ys)
  case Nil
  then show ?case by simp
next
  case (Cons y ys)
  have "y \<notin> set ys"
  proof
    assume m: "y \<in> set ys"
    then obtain z zs where ys: "ys = z # zs" by (cases ys) auto
    with Cons.prems have "y \<le> z" "y \<noteq> z" "\<forall>w \<in> set zs. z \<le> w"
      by (auto simp: distinct_adj_Cons)
    with m ys show False by auto
  qed
  moreover have "distinct ys"
    using Cons by (auto simp: distinct_adj_Cons)
  ultimately show ?case by simp
qed

lemma distinct_remdups_adj_sorted:
  "sorted (xs::('a::linorder) list) \<Longrightarrow> distinct (remdups_adj xs)"
  by (simp add: sorted_distinct_adj)

lemma fb_unique_inverse_correct:
  "\<exists>u rev. fb_unique_inverse ar = Inr (u, rev) \<and> distinct u \<and> set u = set ar
      \<and> length rev = length ar \<and> (\<forall>i < length ar. rev ! i < length u \<and> u ! (rev ! i) = ar ! i)"
proof (cases "ar = []")
  case True
  then show ?thesis by (simp add: fb_unique_inverse_def)
next
  case False
  let ?perm = "argsort ar"
  let ?aux = "map (\<lambda>i. ar ! i) ?perm"
  let ?flag = "[True] @ adjacent_differ ?aux"
  let ?iflag = "map (\<lambda>c. c - 1) (np_cumsum ?flag)"
  let ?iperm = "argsort ?perm"
  define perm where "perm = ?perm"
  define aux where "aux = ?aux"
  define iflag where "iflag = ?iflag"
  define iperm where "iperm = ?iperm"
  define rev where "rev = map (\<lambda>i. iflag ! i) iperm"
  have lp: "length perm = length ar" by (simp add: perm_def length_argsort)
  have la: "length aux = length ar" by (simp add: aux_def length_argsort)
  have aux_ne: "?aux \<noteq> []"
  proof
    assume "?aux = []"
    then have "length (argsort ar) = 0" by simp
    with False show False by (simp add: length_argsort)
  qed
  have "length ar - 1 + 1 = length ar" using False by (cases ar) simp_all
  then have l_iflag: "length iflag = length ar"
    by (simp add: iflag_def np_cumsum_def length_cumsum_from length_adjacent_differ length_argsort)
  have l_iperm: "length iperm = length ar" by (simp add: iperm_def length_argsort)
  have iperm_ok: "\<forall>i \<in> set ?iperm. i < length ?iflag"
    using set_argsort[of ?perm] l_iflag by (simp add: iflag_def length_argsort)
  have t1: "take_idx ar ?perm = Inr ?aux" by (rule take_idx_argsort)
  have t2: "take_mask ?aux ?flag = Inr (remdups_adj ?aux)"
    by (rule take_mask_changes[OF aux_ne])
  have t3: "take_idx ?iflag ?iperm = Inr (map (\<lambda>i. ?iflag ! i) ?iperm)"
    using iperm_ok unfolding take_idx_def by (rule if_P)
  have "length ar \<noteq> 0" using False by simp
  then have "fb_unique_inverse ar = Inr (remdups_adj ?aux, map (\<lambda>i. ?iflag ! i) ?iperm)"
    unfolding fb_unique_inverse_def Let_def
    by (simp only: if_False t1 t2 t3 ebind_def sum.case)
  then have run: "fb_unique_inverse ar = Inr (remdups_adj aux, rev)"
    by (simp only: aux_def rev_def iflag_def iperm_def)
  have sorted_aux: "sorted aux" unfolding aux_def perm_def by (rule sorted_argsort)
  have "set aux = set ar"
  proof -
    have "set aux = (\<lambda>i. ar ! i) ` {0..<length ar}"
      by (simp add: aux_def perm_def set_argsort)
    also have "\<dots> = set ar" by (auto simp: in_set_conv_nth)
    finally show ?thesis .
  qed
  then have s: "set (remdups_adj aux) = set ar" by simp
  have d: "distinct (remdups_adj aux)"
    using sorted_aux by (rule distinct_remdups_adj_sorted)
  have v: "rev ! i < length (remdups_adj aux) \<and> remdups_adj aux ! (rev ! i) = ar ! i"
    if i: "i < length ar" for i
  proof -
    have ip: "iperm ! i < length ar \<and> perm ! (iperm ! i) = i"
      using argsort_argsort[OF i] by (simp add: iperm_def perm_def)
    then have "aux ! (iperm ! i) = ar ! i" by (simp add: aux_def perm_def length_argsort)
    moreover have "rev ! i = iflag ! (iperm ! i)" using i l_iperm by (simp add: rev_def)
    moreover have "iperm ! i < length aux" using ip la by simp
    ultimately show ?thesis
      using iflag_index[of "iperm ! i" aux] by (simp add: iflag_def aux_def)
  qed
  have "length rev = length ar" by (simp add: rev_def l_iperm)
  with run s d v show ?thesis by blast
qed

lemma np_unique_correct:
  "\<exists>u. np_unique ar = Inr u \<and> set u = set ar"
proof (cases "ar = []")
  case True
  then show ?thesis by (simp add: np_unique_def)
next
  case False
  then have "sort ar \<noteq> []" by (metis length_sort length_0_conv)
  from take_mask_changes[OF this] False show ?thesis
    by (simp add: np_unique_def Let_def)
qed

text \<open>
  Claim C7. For every pair of arrays \<open>ar1\<close> and \<open>ar2\<close>, with \<open>assume_unique\<close> false or with
  \<open>assume_unique\<close> true and the entries of \<open>ar1\<close> distinct (the entries of \<open>ar2\<close> may even
  repeat), the routine returns a boolean array of the length of \<open>ar1\<close> whose \<open>i\<close>-th entry is
  true if and only if \<open>ar1[i]\<close> is an entry of \<open>ar2\<close>.
\<close>

theorem fb_in1d_membership:
  assumes "assume_unique \<longrightarrow> distinct ar1"
  shows "\<exists>r. fb_in1d ar1 ar2 assume_unique = Inr r \<and> length r = length ar1
           \<and> (\<forall>i < length ar1. r ! i = (ar1 ! i \<in> set ar2))"
proof (cases assume_unique)
  case True
  with assms have "distinct ar1" by simp
  from in1d_sorted_flags_correct[OF this, of ar2] True show ?thesis
    by (simp add: fb_in1d_def)
next
  case False
  obtain u rev where u: "fb_unique_inverse ar1 = Inr (u, rev)" "distinct u"
    "length rev = length ar1" "\<forall>i < length ar1. rev ! i < length u \<and> u ! (rev ! i) = ar1 ! i"
    using fb_unique_inverse_correct[of ar1] by blast
  obtain u2 where u2: "np_unique ar2 = Inr u2" "set u2 = set ar2"
    using np_unique_correct[of ar2] by blast
  obtain flags where f: "in1d_sorted_flags u u2 = Inr flags" "length flags = length u"
    "\<forall>k < length u. flags ! k = (u ! k \<in> set u2)"
    using in1d_sorted_flags_correct[OF u(2), of u2] by blast
  have ok: "\<forall>i \<in> set rev. i < length flags"
    using u(3,4) f(2) by (auto simp: in_set_conv_nth)
  have "take_idx flags rev = Inr (map (\<lambda>i. flags ! i) rev)"
    using ok unfolding take_idx_def by (rule if_P)
  then have run: "fb_in1d ar1 ar2 assume_unique = Inr (map (\<lambda>i. flags ! i) rev)"
    using False u(1) u2(1) f(1) by (simp add: fb_in1d_def ebind_def)
  have "map (\<lambda>i. flags ! i) rev ! i = (ar1 ! i \<in> set ar2)" if "i < length ar1" for i
    using that u(3,4) f(3) u2(2) by simp
  with run u(3) show ?thesis by simp
qed

theorem fb_in1d_membership_witness:
  "distinct [3, 1, 2 :: int]
   \<and> fb_in1d [3, 1, 2 :: int] [1, 5, 3, 3] True = Inr [True, True, False]"
proof -
  have e: "fb_in1d [3, 1, 2 :: int] [1, 5, 3, 3] True = Inr [True, True, False]"
    by code_simp
  obtain r where "fb_in1d [3, 1, 2 :: int] [1, 5, 3, 3] True = Inr r" "length r = 3"
    using fb_in1d_membership[of True "[3, 1, 2 :: int]" "[1, 5, 3, 3]"] by auto
  with e show ?thesis by simp
qed

section \<open>Results: the zero-phase filter\<close>

subsection \<open>The slices in use\<close>

lemma slice_first: "0 < len \<Longrightarrow> slice_indices None (Some 1) None len = [0]"
  by (simp add: slice_indices_def py_range_def)

lemma slice_last: "0 < len \<Longrightarrow> slice_indices (Some (- 1)) None None len = [len - 1]"
  by (simp add: slice_indices_def py_range_def nat_diff_distrib')

lemma slice_reverse: "slice_indices None None (Some (- 1)) len = map (\<lambda>j. len - 1 - j) [0..<len]"
  by (auto simp: slice_indices_def py_range_def nat_diff_distrib')

lemma slice_left_mirror:
  assumes "0 < e" "e < int len"
  shows "slice_indices (Some e) (Some 0) (Some (- 1)) len = map (\<lambda>j. nat e - j) [0..<nat e]"
  using assms by (auto simp: slice_indices_def py_range_def nat_diff_distrib')

lemma slice_right_mirror:
  assumes "0 < e" "e < int len"
  shows "slice_indices (Some (- 2)) (Some (- (e + 2))) (Some (- 1)) len
           = map (\<lambda>j. len - 2 - j) [0..<nat e]"
proof -
  have c: "nat (int len - 2 - (if int len - e \<le> 1 then - 1 else - e - 2 + int len)) = nat e"
    using assms by auto
  have "nat (int len - 2 - int j) = len - 2 - j" for j
    by (simp add: nat_diff_distrib')
  then show ?thesis
    using assms c
    by (simp add: slice_indices_def py_range_def max_def Let_def comp_def)
qed

lemma slice_trim:
  assumes "0 < e"
  shows "slice_indices (Some e) (Some (- e)) None (len + 2 * nat e)
           = map (\<lambda>j. nat e + j) [0..<len]"
  using assms by (auto simp: slice_indices_def py_range_def nat_add_distrib max_def min_def)

subsection \<open>Shapes\<close>

lemma shape_axis_slice:
  "shape (axis_slice a s e st k) = (shape a)[k := length (slice_indices s e st (shape a ! k))]"
  by (simp add: axis_slice_def Let_def)

lemma shape_axis_reverse: "shape (axis_reverse a k) = shape a"
  by (simp add: axis_reverse_def shape_axis_slice slice_reverse)

lemma shape_nd_scale: "shape (nd_scale c a) = shape a"
  by (simp add: nd_scale_def)

lemma broadcast_shape_axis:
  assumes "length s1 = length s2" "\<forall>j < length s2. j \<noteq> k \<longrightarrow> s1 ! j = s2 ! j \<or> s1 ! j = 1"
    and "k < length s2 \<longrightarrow> s1 ! k = 1 \<or> s2 ! k = 1"
  shows "broadcast_shape s1 s2
           = Inr (s2[k := (if s1 ! k = 1 then s2 ! k else s1 ! k)])"
proof -
  have ok: "\<forall>p \<in> set (zip s1 s2). fst p = snd p \<or> fst p = 1 \<or> snd p = 1"
  proof
    fix p assume "p \<in> set (zip s1 s2)"
    then obtain j where j: "j < length s2" "p = (s1 ! j, s2 ! j)"
      using assms(1) by (auto simp: set_zip)
    show "fst p = snd p \<or> fst p = 1 \<or> snd p = 1"
      using assms(2,3) j by (cases "j = k") auto
  qed
  have "map2 (\<lambda>d1 d2. if d1 = 1 then d2 else d1) s1 s2
          = s2[k := (if s1 ! k = 1 then s2 ! k else s1 ! k)]"
  proof (rule nth_equalityI)
    show "length (map2 (\<lambda>d1 d2. if d1 = 1 then d2 else d1) s1 s2)
            = length (s2[k := (if s1 ! k = 1 then s2 ! k else s1 ! k)])"
      using assms(1) by simp
  next
    fix j assume "j < length (map2 (\<lambda>d1 d2. if d1 = 1 then d2 else d1) s1 s2)"
    then have j: "j < length s2" using assms(1) by simp
    show "map2 (\<lambda>d1 d2. if d1 = 1 then d2 else d1) s1 s2 ! j
            = s2[k := (if s1 ! k = 1 then s2 ! k else s1 ! k)] ! j"
      using assms j by (cases "j = k") auto
  qed
  with ok assms(1) show ?thesis by (simp add: broadcast_shape_def)
qed

text \<open>An array of extent 1 along the axis against an array of extent \<open>m\<close>.\<close>

lemma broadcast_end_ext:
  assumes "k < length sh"
  shows "broadcast_shape (sh[k := 1]) (sh[k := m]) = Inr (sh[k := m])"
  using broadcast_shape_axis[of "sh[k := 1]" "sh[k := m]" k] assms by simp

lemma broadcast_ones_end:
  assumes "k < length sh"
  shows "broadcast_shape ((replicate (length sh) 1)[k := m]) (sh[k := 1]) = Inr (sh[k := m])"
  using broadcast_shape_axis[of "(replicate (length sh) 1)[k := m]" "sh[k := 1]" k] assms
  by (auto simp: nth_list_update)

lemma nd_binop_shape:
  assumes "broadcast_shape (shape u) (shape v) = Inr sh"
  shows "nd_binop f u v
           = Inr \<lparr>shape = sh,
                  item = (\<lambda>idx. f (item u (bc_index (shape u) idx)) (item v (bc_index (shape v) idx)))\<rparr>"
  using assms by (simp add: nd_binop_def ebind_def)

lemma concat2_axis:
  assumes "k < length sh" "shape u = sh[k := m]" "shape v = sh[k := m']"
  shows "concat2 u v k
           = Inr \<lparr>shape = sh[k := m + m'],
                  item = (\<lambda>idx. if idx ! k < m then item u idx else item v (idx[k := idx ! k - m]))\<rparr>"
proof -
  have "shape u ! k = m" "shape v ! k = m'" using assms by simp_all
  then show ?thesis using assms by (simp add: concat2_def cong: if_cong)
qed

lemma concatenate3_axis:
  assumes "k < length sh" "shape u = sh[k := m1]" "shape v = sh[k := m2]" "shape w = sh[k := m3]"
  shows "\<exists>r. np_concatenate [u, v, w] k = Inr r \<and> shape r = sh[k := m1 + (m2 + m3)]
           \<and> (\<forall>idx. k < length idx \<longrightarrow>
                 item r idx = (if idx ! k < m1 then item u idx
                               else if idx ! k - m1 < m2 then item v (idx[k := idx ! k - m1])
                               else item w (idx[k := idx ! k - m1 - m2])))"
proof -
  define vw where "vw = \<lparr>shape = sh[k := m2 + m3],
             item = (\<lambda>idx. if idx ! k < m2 then item v idx else item w (idx[k := idx ! k - m2]))\<rparr>"
  have c1: "concat2 v w k = Inr vw"
    unfolding vw_def by (rule concat2_axis[OF assms(1,3,4)])
  have "shape vw = sh[k := m2 + m3]" by (simp add: vw_def)
  from concat2_axis[OF assms(1,2) this]
  have c2: "concat2 u vw k = Inr \<lparr>shape = sh[k := m1 + (m2 + m3)],
             item = (\<lambda>idx. if idx ! k < m1 then item u idx else item vw (idx[k := idx ! k - m1]))\<rparr>" .
  have "item vw (idx[k := idx ! k - m1])
          = (if idx ! k - m1 < m2 then item v (idx[k := idx ! k - m1])
             else item w (idx[k := idx ! k - m1 - m2]))" if "k < length idx" for idx
    using that by (simp add: vw_def)
  with c1 c2 show ?thesis by (simp add: ebind_def)
qed

subsection \<open>Sections along the axis\<close>

lemma length_section: "length (section_along a k idx) = shape a ! k"
  by (simp add: section_along_def)

lemma section_nth: "m < shape a ! k \<Longrightarrow> section_along a k idx ! m = item a (idx[k := m])"
  by (simp add: section_along_def)

lemma section_update: "section_along a k (idx[k := m]) = section_along a k idx"
  by (simp add: section_along_def)

lemma off_axis_shape: "k < length sh \<Longrightarrow> off_axis (sh[k := m]) k idx = off_axis sh k idx"
  by (auto simp: off_axis_def nth_list_update)

lemma off_axis_update: "off_axis sh k (idx[k := m]) = off_axis sh k idx"
  by (auto simp: off_axis_def nth_list_update)

lemma bc_index_id:
  assumes "off_axis sh k idx" "k < length sh" "idx ! k < sh ! k"
  shows "bc_index sh idx = idx"
proof (rule nth_equalityI)
  show "length (bc_index sh idx) = length idx" using assms by (simp add: bc_index_def off_axis_def)
next
  fix j assume "j < length (bc_index sh idx)"
  then have j: "j < length sh" "j < length idx" using assms by (simp_all add: bc_index_def off_axis_def)
  have "idx ! j < sh ! j" using assms j by (cases "j = k") (auto simp: off_axis_def)
  then show "bc_index sh idx ! j = idx ! j" using j by (auto simp: bc_index_def)
qed

lemma bc_index_end:
  assumes "off_axis sh k idx" "k < length sh"
  shows "bc_index (sh[k := 1]) idx = idx[k := 0]"
proof -
  have "off_axis (sh[k := 1]) k (idx[k := 0])"
    using assms by (simp add: off_axis_shape off_axis_update)
  from bc_index_id[OF this] assms
  have "bc_index (sh[k := 1]) (idx[k := 0]) = idx[k := 0]" by (simp add: off_axis_def)
  moreover have "bc_index (sh[k := 1]) (idx[k := 0]) = bc_index (sh[k := 1]) idx"
  proof (rule nth_equalityI)
    show "length (bc_index (sh[k := 1]) (idx[k := 0])) = length (bc_index (sh[k := 1]) idx)"
      by (simp add: bc_index_def)
  next
    fix j assume "j < length (bc_index (sh[k := 1]) (idx[k := 0]))"
    then have "j < length sh" "j < length idx" by (simp_all add: bc_index_def)
    then show "bc_index (sh[k := 1]) (idx[k := 0]) ! j = bc_index (sh[k := 1]) idx ! j"
      by (cases "j = k") (simp_all add: bc_index_def)
  qed
  ultimately show ?thesis by simp
qed

text \<open>A slice along the axis selects from each section.\<close>

lemma item_axis_slice:
  "item (axis_slice a s e st k) idx = item a (idx[k := slice_indices s e st (shape a ! k) ! (idx ! k)])"
  by (simp add: axis_slice_def Let_def)

lemma section_axis_slice:
  assumes "k < length idx" "\<forall>i \<in> set (slice_indices s e st (shape a ! k)). i < shape a ! k"
    and "k < length (shape a)"
  shows "section_along (axis_slice a s e st k) k idx
           = map (\<lambda>i. section_along a k idx ! i) (slice_indices s e st (shape a ! k))"
proof (rule nth_equalityI)
  let ?sel = "slice_indices s e st (shape a ! k)"
  show len: "length (section_along (axis_slice a s e st k) k idx)
          = length (map (\<lambda>i. section_along a k idx ! i) ?sel)"
    using assms(3) by (simp add: length_section shape_axis_slice)
  fix m assume "m < length (section_along (axis_slice a s e st k) k idx)"
  then have m: "m < length ?sel" using len by simp
  then have "?sel ! m < shape a ! k" using assms(2) by simp
  then have "section_along a k idx ! (?sel ! m) = item a (idx[k := ?sel ! m])"
    by (rule section_nth)
  moreover have "section_along (axis_slice a s e st k) k idx ! m
                   = item (axis_slice a s e st k) (idx[k := m])"
    using m assms(3) by (simp add: section_nth shape_axis_slice)
  ultimately show "section_along (axis_slice a s e st k) k idx ! m
          = map (\<lambda>i. section_along a k idx ! i) ?sel ! m"
    using m assms(1) by (simp add: item_axis_slice)
qed

lemma slice_first0: "0 < len \<Longrightarrow> slice_indices (Some 0) (Some 1) None len = [0]"
  by (simp add: slice_indices_def py_range_def)

lemma section_nd_scale: "section_along (nd_scale c a) k idx = map (\<lambda>v. c * v) (section_along a k idx)"
  by (simp add: section_along_def nd_scale_def)

lemma binop_end_sections:
  assumes k: "k < length sh" and u: "shape u = sh[k := 1]" and v: "shape v = sh[k := m]"
  shows "\<exists>r. nd_binop f u v = Inr r \<and> shape r = sh[k := m]
           \<and> (\<forall>idx. off_axis sh k idx \<longrightarrow>
                 section_along r k idx
                   = map (\<lambda>j. f (section_along u k idx ! 0) (section_along v k idx ! j)) [0..<m])"
proof -
  define r where "r = \<lparr>shape = sh[k := m],
      item = (\<lambda>idx. f (item u (bc_index (shape u) idx)) (item v (bc_index (shape v) idx)))\<rparr>"
  have "broadcast_shape (shape u) (shape v) = Inr (sh[k := m])"
    unfolding u v by (rule broadcast_end_ext[OF k])
  then have run: "nd_binop f u v = Inr r"
    unfolding r_def by (rule nd_binop_shape)
  have sec: "section_along r k idx
      = map (\<lambda>j. f (section_along u k idx ! 0) (section_along v k idx ! j)) [0..<m]"
    if o: "off_axis sh k idx" for idx
  proof (rule nth_equalityI)
    show "length (section_along r k idx)
        = length (map (\<lambda>j. f (section_along u k idx ! 0) (section_along v k idx ! j)) [0..<m])"
      using k by (simp add: length_section r_def)
  next
    fix j assume "j < length (section_along r k idx)"
    then have j: "j < m" using k by (simp add: length_section r_def)
    have o': "off_axis sh k (idx[k := j])" using o by (simp add: off_axis_update)
    have li: "k < length idx" using o k by (simp add: off_axis_def)
    have b1: "bc_index (shape u) (idx[k := j]) = idx[k := 0]"
      unfolding u using bc_index_end[OF o' k] by simp
    have "off_axis (sh[k := m]) k (idx[k := j])" using o' k by (simp add: off_axis_shape)
    from bc_index_id[OF this] j k li
    have b2: "bc_index (shape v) (idx[k := j]) = idx[k := j]" by (simp add: v)
    have "section_along u k idx ! 0 = item u (idx[k := 0])"
      using k by (simp add: section_nth u)
    moreover have "section_along v k idx ! j = item v (idx[k := j])"
      using k j by (simp add: section_nth v)
    moreover have "section_along r k idx ! j = item r (idx[k := j])"
      using k j by (simp add: section_nth r_def)
    ultimately show "section_along r k idx ! j
        = map (\<lambda>j. f (section_along u k idx ! 0) (section_along v k idx ! j)) [0..<m] ! j"
      using j b1 b2 by (simp add: r_def)
  qed
  show ?thesis using run sec by (auto simp: r_def)
qed

lemma concat3_sections:
  assumes k: "k < length sh" and "shape u = sh[k := m1]" "shape v = sh[k := m2]" "shape w = sh[k := m3]"
  shows "\<exists>r. np_concatenate [u, v, w] k = Inr r \<and> shape r = sh[k := m1 + (m2 + m3)]
           \<and> (\<forall>idx. length idx = length sh \<longrightarrow>
                 section_along r k idx
                   = section_along u k idx @ section_along v k idx @ section_along w k idx)"
proof -
  obtain r where r: "np_concatenate [u, v, w] k = Inr r" "shape r = sh[k := m1 + (m2 + m3)]"
    "\<forall>idx. k < length idx \<longrightarrow>
          item r idx = (if idx ! k < m1 then item u idx
                        else if idx ! k - m1 < m2 then item v (idx[k := idx ! k - m1])
                        else item w (idx[k := idx ! k - m1 - m2]))"
    using concatenate3_axis[OF assms] by blast
  have sec: "section_along r k idx
      = section_along u k idx @ section_along v k idx @ section_along w k idx"
    if l: "length idx = length sh" for idx
  proof (rule nth_equalityI)
    show "length (section_along r k idx)
        = length (section_along u k idx @ section_along v k idx @ section_along w k idx)"
      using k assms by (simp add: length_section r(2))
  next
    fix j assume "j < length (section_along r k idx)"
    then have j: "j < m1 + (m2 + m3)" using k by (simp add: length_section r(2))
    have li: "k < length idx" using l k by simp
    have lu: "length (section_along u k idx) = m1" "length (section_along v k idx) = m2"
      "length (section_along w k idx) = m3"
      using assms by (simp_all add: length_section)
    have "section_along r k idx ! j = item r (idx[k := j])"
      using j k by (simp add: section_nth r(2))
    also have "\<dots> = (if j < m1 then item u (idx[k := j])
                        else if j - m1 < m2 then item v (idx[k := j - m1])
                        else item w (idx[k := j - m1 - m2]))"
      using r(3) li by simp
    also have "\<dots> = (section_along u k idx @ section_along v k idx @ section_along w k idx) ! j"
      using j k assms lu by (auto simp: nth_append section_nth)
    finally show "section_along r k idx ! j
        = (section_along u k idx @ section_along v k idx @ section_along w k idx) ! j" .
  qed
  show ?thesis using r(1,2) sec by blast
qed

subsection \<open>The extensions\<close>

lemma ext_slices:
  assumes k: "k < length (shape x)" and e: "0 < e" "e < int (shape x ! k)"
    and l: "length idx = length (shape x)"
  shows "shape (axis_slice x (Some 0) (Some 1) None k) = (shape x)[k := 1]"
    and "section_along (axis_slice x (Some 0) (Some 1) None k) k idx = [section_along x k idx ! 0]"
    and "shape (axis_slice x (Some (- 1)) None None k) = (shape x)[k := 1]"
    and "section_along (axis_slice x (Some (- 1)) None None k) k idx
           = [section_along x k idx ! (shape x ! k - 1)]"
    and "shape (axis_slice x (Some e) (Some 0) (Some (- 1)) k) = (shape x)[k := nat e]"
    and "section_along (axis_slice x (Some e) (Some 0) (Some (- 1)) k) k idx
           = map (\<lambda>j. section_along x k idx ! (nat e - j)) [0..<nat e]"
    and "shape (axis_slice x (Some (- 2)) (Some (- (e + 2))) (Some (- 1)) k) = (shape x)[k := nat e]"
    and "section_along (axis_slice x (Some (- 2)) (Some (- (e + 2))) (Some (- 1)) k) k idx
           = map (\<lambda>j. section_along x k idx ! (shape x ! k - 2 - j)) [0..<nat e]"
proof -
  have N: "0 < shape x ! k" using e by simp
  have li: "k < length idx" using k l by simp
  show "shape (axis_slice x (Some 0) (Some 1) None k) = (shape x)[k := 1]"
    by (simp add: shape_axis_slice slice_first0[OF N])
  show "section_along (axis_slice x (Some 0) (Some 1) None k) k idx = [section_along x k idx ! 0]"
    using N by (simp add: section_axis_slice[OF li _ k] slice_first0[OF N])
  show "shape (axis_slice x (Some (- 1)) None None k) = (shape x)[k := 1]"
    by (simp add: shape_axis_slice slice_last[OF N])
  show "section_along (axis_slice x (Some (- 1)) None None k) k idx
           = [section_along x k idx ! (shape x ! k - 1)]"
    using N by (simp add: section_axis_slice[OF li _ k] slice_last[OF N])
  show "shape (axis_slice x (Some e) (Some 0) (Some (- 1)) k) = (shape x)[k := nat e]"
    by (simp add: shape_axis_slice slice_left_mirror[OF e])
  have "\<forall>i \<in> set (map (\<lambda>j. nat e - j) [0..<nat e]). i < shape x ! k"
    using e by auto
  then show "section_along (axis_slice x (Some e) (Some 0) (Some (- 1)) k) k idx
           = map (\<lambda>j. section_along x k idx ! (nat e - j)) [0..<nat e]"
    by (simp add: section_axis_slice[OF li _ k] slice_left_mirror[OF e] comp_def)
  show "shape (axis_slice x (Some (- 2)) (Some (- (e + 2))) (Some (- 1)) k) = (shape x)[k := nat e]"
    unfolding shape_axis_slice slice_right_mirror[OF e] by simp
  have "\<forall>i \<in> set (map (\<lambda>j. shape x ! k - 2 - j) [0..<nat e]). i < shape x ! k"
    using e by auto
  then have "\<forall>i \<in> set (slice_indices (Some (- 2)) (Some (- (e + 2))) (Some (- 1)) (shape x ! k)).
           i < shape x ! k"
    unfolding slice_right_mirror[OF e] .
  from section_axis_slice[OF li this k]
  show "section_along (axis_slice x (Some (- 2)) (Some (- (e + 2))) (Some (- 1)) k) k idx
           = map (\<lambda>j. section_along x k idx ! (shape x ! k - 2 - j)) [0..<nat e]"
    unfolding slice_right_mirror[OF e] by (simp add: comp_def)
qed

lemma odd_ext_sections:
  assumes k: "k < length (shape x)" and e: "0 < e" "e < int (shape x ! k)"
  shows "\<exists>ext. odd_ext x e k = Inr ext \<and> shape ext = (shape x)[k := shape x ! k + 2 * nat e]
           \<and> (\<forall>idx. off_axis (shape x) k idx \<longrightarrow>
                 section_along ext k idx = odd_ext1 (section_along x k idx) (nat e))"
proof -
  let ?sh = "shape x"
  let ?N = "shape x ! k"
  define left_end where "left_end = axis_slice x (Some 0) (Some 1) None k"
  define left_ext where "left_ext = axis_slice x (Some e) (Some 0) (Some (- 1)) k"
  define right_end where "right_end = axis_slice x (Some (- 1)) None None k"
  define right_ext where "right_ext = axis_slice x (Some (- 2)) (Some (- (e + 2))) (Some (- 1)) k"
  note sl = ext_slices[OF k e]
  have shapes: "shape (nd_scale 2 left_end) = ?sh[k := 1]" "shape left_ext = ?sh[k := nat e]"
    "shape (nd_scale 2 right_end) = ?sh[k := 1]" "shape right_ext = ?sh[k := nat e]"
    using sl(1,3,5,7)[of "shape x"]
    by (simp_all add: shape_nd_scale left_end_def left_ext_def right_end_def right_ext_def)
  obtain left where left: "nd_binop (-) (nd_scale 2 left_end) left_ext = Inr left"
    "shape left = ?sh[k := nat e]"
    "\<forall>idx. off_axis ?sh k idx \<longrightarrow> section_along left k idx
        = map (\<lambda>j. section_along (nd_scale 2 left_end) k idx ! 0 - section_along left_ext k idx ! j)
            [0..<nat e]"
    using binop_end_sections[OF k shapes(1,2), of "(-)"] by blast
  obtain right where right: "nd_binop (-) (nd_scale 2 right_end) right_ext = Inr right"
    "shape right = ?sh[k := nat e]"
    "\<forall>idx. off_axis ?sh k idx \<longrightarrow> section_along right k idx
        = map (\<lambda>j. section_along (nd_scale 2 right_end) k idx ! 0 - section_along right_ext k idx ! j)
            [0..<nat e]"
    using binop_end_sections[OF k shapes(3,4), of "(-)"] by blast
  have shx: "shape x = ?sh[k := ?N]" by simp
  obtain ext where ext: "np_concatenate [left, x, right] k = Inr ext"
    "shape ext = ?sh[k := nat e + (?N + nat e)]"
    "\<forall>idx. length idx = length ?sh \<longrightarrow>
       section_along ext k idx = section_along left k idx @ section_along x k idx @ section_along right k idx"
    using concat3_sections[OF k left(2) shx right(2)] by blast
  have run: "odd_ext x e k = Inr ext"
    unfolding odd_ext_def Let_def left_end_def[symmetric] left_ext_def[symmetric]
      right_end_def[symmetric] right_ext_def[symmetric]
    using e left(1) right(1) ext(1) by (simp add: ebind_def)
  have sec: "section_along ext k idx = odd_ext1 (section_along x k idx) (nat e)"
    if o: "off_axis ?sh k idx" for idx
  proof -
    have l: "length idx = length ?sh" using o by (simp add: off_axis_def)
    note s = sl(2,4,6,8)[OF l]
    have "section_along left k idx
        = map (\<lambda>j. 2 * section_along x k idx ! 0 - section_along x k idx ! (nat e - j)) [0..<nat e]"
      using left(3) o s(1,3) by (simp add: section_nd_scale left_end_def left_ext_def)
    moreover have "section_along right k idx
        = map (\<lambda>j. 2 * section_along x k idx ! (?N - 1) - section_along x k idx ! (?N - 2 - j))
            [0..<nat e]"
      using right(3) o s(2,4) by (simp add: section_nd_scale right_end_def right_ext_def)
    ultimately show ?thesis
      using ext(3) l by (simp add: odd_ext1_def length_section)
  qed
  have "nat e + (?N + nat e) = ?N + 2 * nat e" by simp
  with run ext(2) sec show ?thesis by auto
qed

lemma even_ext_sections:
  assumes k: "k < length (shape x)" and e: "0 < e" "e < int (shape x ! k)"
  shows "\<exists>ext. even_ext x e k = Inr ext \<and> shape ext = (shape x)[k := shape x ! k + 2 * nat e]
           \<and> (\<forall>idx. off_axis (shape x) k idx \<longrightarrow>
                 section_along ext k idx = even_ext1 (section_along x k idx) (nat e))"
proof -
  let ?sh = "shape x"
  let ?N = "shape x ! k"
  define left_ext where "left_ext = axis_slice x (Some e) (Some 0) (Some (- 1)) k"
  define right_ext where "right_ext = axis_slice x (Some (- 2)) (Some (- (e + 2))) (Some (- 1)) k"
  note sl = ext_slices[OF k e]
  have shapes: "shape left_ext = ?sh[k := nat e]" "shape right_ext = ?sh[k := nat e]"
    using sl(5,7)[of "shape x"] by (simp_all add: left_ext_def right_ext_def)
  have shx: "shape x = ?sh[k := ?N]" by simp
  obtain ext where ext: "np_concatenate [left_ext, x, right_ext] k = Inr ext"
    "shape ext = ?sh[k := nat e + (?N + nat e)]"
    "\<forall>idx. length idx = length ?sh \<longrightarrow>
       section_along ext k idx
         = section_along left_ext k idx @ section_along x k idx @ section_along right_ext k idx"
    using concat3_sections[OF k shapes(1) shx shapes(2)] by blast
  have run: "even_ext x e k = Inr ext"
    unfolding even_ext_def Let_def left_ext_def[symmetric] right_ext_def[symmetric]
    using e ext(1) by simp
  have sec: "section_along ext k idx = even_ext1 (section_along x k idx) (nat e)"
    if o: "off_axis ?sh k idx" for idx
  proof -
    have l: "length idx = length ?sh" using o by (simp add: off_axis_def)
    note s = sl(6,8)[OF l]
    show ?thesis
      using ext(3) l s by (simp add: even_ext1_def length_section left_ext_def right_ext_def)
  qed
  have "nat e + (?N + nat e) = ?N + 2 * nat e" by simp
  with run ext(2) sec show ?thesis by auto
qed

text \<open>An array that varies along the axis only, against an array of extent 1 along it.\<close>

lemma binop_along_end_sections:
  assumes k: "k < length sh" and u: "shape u = (replicate (length sh) 1)[k := m]"
    and g: "\<forall>idx. item u idx = g (idx ! k)" and v: "shape v = sh[k := 1]"
  shows "\<exists>r. nd_binop f u v = Inr r \<and> shape r = sh[k := m]
           \<and> (\<forall>idx. off_axis sh k idx \<longrightarrow>
                 section_along r k idx = map (\<lambda>j. f (g j) (section_along v k idx ! 0)) [0..<m])"
proof -
  define r where "r = \<lparr>shape = sh[k := m],
      item = (\<lambda>idx. f (item u (bc_index (shape u) idx)) (item v (bc_index (shape v) idx)))\<rparr>"
  have "broadcast_shape (shape u) (shape v) = Inr (sh[k := m])"
    unfolding u v by (rule broadcast_ones_end[OF k])
  then have run: "nd_binop f u v = Inr r"
    unfolding r_def by (rule nd_binop_shape)
  have sec: "section_along r k idx = map (\<lambda>j. f (g j) (section_along v k idx ! 0)) [0..<m]"
    if o: "off_axis sh k idx" for idx
  proof (rule nth_equalityI)
    show "length (section_along r k idx)
        = length (map (\<lambda>j. f (g j) (section_along v k idx ! 0)) [0..<m])"
      using k by (simp add: length_section r_def)
  next
    fix j assume "j < length (section_along r k idx)"
    then have j: "j < m" using k by (simp add: length_section r_def)
    have o': "off_axis sh k (idx[k := j])" using o by (simp add: off_axis_update)
    have li: "k < length idx" "length idx = length sh" using o k by (simp_all add: off_axis_def)
    have "bc_index (shape u) (idx[k := j]) ! k = j"
      using k li j by (simp add: bc_index_def u)
    then have b1: "item u (bc_index (shape u) (idx[k := j])) = g j" using g by simp
    have b2: "bc_index (shape v) (idx[k := j]) = idx[k := 0]"
      unfolding v using bc_index_end[OF o' k] by simp
    have "section_along v k idx ! 0 = item v (idx[k := 0])"
      using k by (simp add: section_nth v)
    moreover have "section_along r k idx ! j = item r (idx[k := j])"
      using k j by (simp add: section_nth r_def)
    ultimately show "section_along r k idx ! j
        = map (\<lambda>j. f (g j) (section_along v k idx ! 0)) [0..<m] ! j"
      using j b1 b2 by (simp add: r_def)
  qed
  show ?thesis using run sec by (auto simp: r_def)
qed

lemma const_ext_sections:
  assumes k: "k < length (shape x)" and e: "0 < e" "e < int (shape x ! k)"
  shows "\<exists>ext. const_ext x e k = Inr ext \<and> shape ext = (shape x)[k := shape x ! k + 2 * nat e]
           \<and> (\<forall>idx. off_axis (shape x) k idx \<longrightarrow>
                 section_along ext k idx = const_ext1 (section_along x k idx) (nat e))"
proof -
  let ?sh = "shape x"
  let ?N = "shape x ! k"
  define left_end where "left_end = axis_slice x (Some 0) (Some 1) None k"
  define right_end where "right_end = axis_slice x (Some (- 1)) None None k"
  define ones where "ones = np_ones ((replicate (length ?sh) 1)[k := nat e])"
  note sl = ext_slices[OF k e]
  have shapes: "shape left_end = ?sh[k := 1]" "shape right_end = ?sh[k := 1]"
    "shape ones = (replicate (length ?sh) 1)[k := nat e]" "\<forall>idx. item ones idx = (\<lambda>j. 1) (idx ! k)"
    using sl(1,3)[of "shape x"] by (simp_all add: left_end_def right_end_def ones_def np_ones_def)
  obtain left where left: "nd_binop (*) ones left_end = Inr left"
    "shape left = ?sh[k := nat e]"
    "\<forall>idx. off_axis ?sh k idx \<longrightarrow> section_along left k idx
        = map (\<lambda>j. 1 * section_along left_end k idx ! 0) [0..<nat e]"
    using binop_along_end_sections[OF k shapes(3,4,1), of "(*)"] by blast
  obtain right where right: "nd_binop (*) ones right_end = Inr right"
    "shape right = ?sh[k := nat e]"
    "\<forall>idx. off_axis ?sh k idx \<longrightarrow> section_along right k idx
        = map (\<lambda>j. 1 * section_along right_end k idx ! 0) [0..<nat e]"
    using binop_along_end_sections[OF k shapes(3,4,2), of "(*)"] by blast
  have shx: "shape x = ?sh[k := ?N]" by simp
  obtain ext where ext: "np_concatenate [left, x, right] k = Inr ext"
    "shape ext = ?sh[k := nat e + (?N + nat e)]"
    "\<forall>idx. length idx = length ?sh \<longrightarrow>
       section_along ext k idx = section_along left k idx @ section_along x k idx @ section_along right k idx"
    using concat3_sections[OF k left(2) shx right(2)] by blast
  have run: "const_ext x e k = Inr ext"
    unfolding const_ext_def Let_def left_end_def[symmetric] right_end_def[symmetric]
      ones_def[symmetric]
    using e left(1) right(1) ext(1) by (simp add: ebind_def)
  have sec: "section_along ext k idx = const_ext1 (section_along x k idx) (nat e)"
    if o: "off_axis ?sh k idx" for idx
  proof -
    have l: "length idx = length ?sh" using o by (simp add: off_axis_def)
    note s = sl(2,4)[OF l]
    have "section_along left k idx = replicate (nat e) (section_along x k idx ! 0)"
      using left(3) o s(1) by (simp add: left_end_def map_replicate_const)
    moreover have "section_along right k idx = replicate (nat e) (section_along x k idx ! (?N - 1))"
      using right(3) o s(2) by (simp add: right_end_def map_replicate_const)
    ultimately show ?thesis
      using ext(3) l by (simp add: const_ext1_def length_section)
  qed
  have "nat e + (?N + nat e) = ?N + 2 * nat e" by simp
  with run ext(2) sec show ?thesis by auto
qed

subsection \<open>The filter along the axis\<close>

lemma length_filt_run: "length (fst (filt_run nb na z xs)) = length xs"
  by (induction xs arbitrary: z) (simp_all add: split_beta Let_def)

lemma length_lfilter1: "length (fst (lfilter1 b a z xs)) = length xs"
  by (simp add: lfilter1_def Let_def length_filt_run)

lemma length_pass1: "length (pass1 b a zi xs) = length xs"
  by (simp add: pass1_def length_lfilter1)

lemma lfilter_sections:
  assumes "a \<noteq> []" "shape z = (shape u)[k := max (length a) (length b) - 1]"
  shows "\<exists>y zf. lfilter b a u k z = Inr (y, zf) \<and> shape y = shape u
           \<and> (\<forall>idx. k < length idx \<longrightarrow>
                 section_along y k idx
                   = fst (lfilter1 b a (section_along z k idx) (section_along u k idx)))"
proof -
  define y where "y = \<lparr>shape = shape u,
      item = (\<lambda>idx. fst (lfilter1 b a (section_along z k idx) (section_along u k idx)) ! (idx ! k))\<rparr>"
  have s: "section_along y k idx = fst (lfilter1 b a (section_along z k idx) (section_along u k idx))"
    if "k < length idx" for idx
  proof (rule nth_equalityI)
    show "length (section_along y k idx)
        = length (fst (lfilter1 b a (section_along z k idx) (section_along u k idx)))"
      by (simp add: length_section length_lfilter1 y_def)
  next
    fix m assume "m < length (section_along y k idx)"
    then have m: "m < shape y ! k" by (simp add: length_section)
    then have "section_along y k idx ! m = item y (idx[k := m])" by (rule section_nth)
    then show "section_along y k idx ! m
        = fst (lfilter1 b a (section_along z k idx) (section_along u k idx)) ! m"
      using that by (simp add: y_def section_update)
  qed
  have "lfilter b a u k z = Inr (y, \<lparr>shape = shape z,
      item = (\<lambda>idx. snd (lfilter1 b a (section_along z k idx) (section_along u k idx)) ! (idx ! k))\<rparr>)"
    using assms by (simp add: lfilter_def Let_def y_def)
  moreover have "shape y = shape u" by (simp add: y_def)
  ultimately show ?thesis using s by blast
qed

text \<open>One pass: the initial conditions scaled by the first sample, then the filter.\<close>

lemma pass_sections:
  assumes k: "k < length (shape u)" and M: "0 < shape u ! k" and a: "a \<noteq> []"
    and zi: "length zi = max (length a) (length b) - 1"
    and f: "shape first = (shape u)[k := 1]"
      "\<forall>idx. off_axis (shape u) k idx \<longrightarrow> section_along first k idx = [section_along u k idx ! 0]"
  shows "\<exists>z y zf. nd_binop (*) (reshape_along zi ((replicate (length (shape u)) 1)[k := length zi]) k)
                    first = Inr z \<and> lfilter b a u k z = Inr (y, zf)
           \<and> shape y = shape u
           \<and> (\<forall>idx. off_axis (shape u) k idx \<longrightarrow>
                 section_along y k idx = pass1 b a zi (section_along u k idx))"
proof -
  let ?zi' = "reshape_along zi ((replicate (length (shape u)) 1)[k := length zi]) k"
  have zs: "shape ?zi' = (replicate (length (shape u)) 1)[k := length zi]"
    "\<forall>idx. item ?zi' idx = (\<lambda>j. zi ! j) (idx ! k)"
    by (simp_all add: reshape_along_def)
  obtain z where z: "nd_binop (*) ?zi' first = Inr z" "shape z = (shape u)[k := length zi]"
    "\<forall>idx. off_axis (shape u) k idx \<longrightarrow>
       section_along z k idx = map (\<lambda>j. zi ! j * section_along first k idx ! 0) [0..<length zi]"
    using binop_along_end_sections[OF k zs f(1), of "(*)"] by blast
  have "shape z = (shape u)[k := max (length a) (length b) - 1]" using z(2) zi by simp
  from lfilter_sections[OF a this]
  obtain y zf where y: "lfilter b a u k z = Inr (y, zf)" "shape y = shape u"
    "\<forall>idx. k < length idx \<longrightarrow>
       section_along y k idx = fst (lfilter1 b a (section_along z k idx) (section_along u k idx))"
    by blast
  have "section_along y k idx = pass1 b a zi (section_along u k idx)"
    if o: "off_axis (shape u) k idx" for idx
  proof -
    have li: "k < length idx" using o k by (simp add: off_axis_def)
    have "section_along z k idx = map (\<lambda>j. zi ! j * section_along u k idx ! 0) [0..<length zi]"
      using z(3) f(2) o by simp
    also have "\<dots> = map (\<lambda>v. v * section_along u k idx ! 0) zi"
      by (rule nth_equalityI) simp_all
    finally show ?thesis using y(3) li by (simp add: pass1_def)
  qed
  with z(1) y(1,2) show ?thesis by blast
qed

lemma section_axis_reverse:
  assumes "k < length idx" "k < length (shape a)"
  shows "section_along (axis_reverse a k) k idx = rev (section_along a k idx)"
proof -
  let ?xs = "section_along a k idx"
  have "\<forall>i \<in> set (slice_indices None None (Some (- 1)) (shape a ! k)). i < shape a ! k"
    by (auto simp: slice_reverse)
  from section_axis_slice[OF assms(1) this assms(2)]
  have "section_along (axis_reverse a k) k idx
          = map (\<lambda>j. ?xs ! (length ?xs - 1 - j)) [0..<length ?xs]"
    by (simp add: axis_reverse_def slice_reverse comp_def length_section)
  also have "\<dots> = rev ?xs"
    by (rule nth_equalityI) (simp_all add: rev_nth)
  finally show ?thesis .
qed

lemma section_first:
  assumes "k < length idx" "k < length (shape a)" "0 < shape a ! k"
  shows "shape (axis_slice a None (Some 1) None k) = (shape a)[k := 1]"
    and "section_along (axis_slice a None (Some 1) None k) k idx = [section_along a k idx ! 0]"
  using assms
  by (simp_all add: shape_axis_slice section_axis_slice slice_first)

lemma section_last:
  assumes "k < length idx" "k < length (shape a)" "0 < shape a ! k"
  shows "shape (axis_slice a (Some (- 1)) None None k) = (shape a)[k := 1]"
    and "section_along (axis_slice a (Some (- 1)) None None k) k idx
           = [section_along a k idx ! (shape a ! k - 1)]"
  using assms
  by (simp_all add: shape_axis_slice section_axis_slice slice_last)

lemma shape_trim:
  assumes "0 < e" "shape a ! k = N + 2 * nat e"
  shows "shape (axis_slice a (Some e) (Some (- e)) None k) = (shape a)[k := N]"
proof -
  have sl: "slice_indices (Some e) (Some (- e)) None (shape a ! k) = map (\<lambda>j. nat e + j) [0..<N]"
    unfolding assms(2) by (rule slice_trim[OF assms(1)])
  show ?thesis by (simp add: shape_axis_slice sl)
qed

lemma section_trim:
  assumes "k < length idx" "k < length (shape a)" "0 < e" "shape a ! k = N + 2 * nat e"
  shows "section_along (axis_slice a (Some e) (Some (- e)) None k) k idx
           = take N (drop (nat e) (section_along a k idx))"
proof -
  have sl: "slice_indices (Some e) (Some (- e)) None (shape a ! k) = map (\<lambda>j. nat e + j) [0..<N]"
    unfolding assms(4) by (rule slice_trim[OF assms(3)])
  have "\<forall>i \<in> set (slice_indices (Some e) (Some (- e)) None (shape a ! k)). i < shape a ! k"
    unfolding sl using assms(4) by auto
  from section_axis_slice[OF assms(1) this assms(2)]
  have "section_along (axis_slice a (Some e) (Some (- e)) None k) k idx
          = map (\<lambda>j. section_along a k idx ! (nat e + j)) [0..<N]"
    by (simp add: sl comp_def)
  also have "\<dots> = take N (drop (nat e) (section_along a k idx))"
    by (rule nth_equalityI) (simp_all add: length_section assms(4))
  finally show ?thesis .
qed

subsection \<open>The whole routine, section by section\<close>

lemma resolve_axis_less: "resolve_axis n axis = Inr k \<Longrightarrow> k < n"
  by (auto simp: resolve_axis_def split: if_splits)

lemma effective_edge_None: "effective_edge b a None padlen = 0"
  by (simp add: effective_edge_def)

lemma ext_stage:
  assumes pt: "padtype \<in> set [Some ''even'', Some ''odd'', Some ''constant'', None]"
    and k: "k < length (shape x)" and e: "e < int (shape x ! k)"
    and pe: "padtype = None \<longrightarrow> e = 0"
  shows "\<exists>ext. (if padtype \<noteq> None \<and> e > 0
                 then (if padtype = Some ''even'' then even_ext x e k
                       else if padtype = Some ''odd'' then odd_ext x e k
                       else const_ext x e k)
                 else Inr x) = Inr ext
           \<and> shape ext = (shape x)[k := shape x ! k + 2 * nat e]
           \<and> (\<forall>idx. off_axis (shape x) k idx \<longrightarrow>
                 section_along ext k idx
                   = (if padtype \<noteq> None \<and> e > 0
                      then (if padtype = Some ''even'' then even_ext1 (section_along x k idx) (nat e)
                            else if padtype = Some ''odd'' then odd_ext1 (section_along x k idx) (nat e)
                            else const_ext1 (section_along x k idx) (nat e))
                      else section_along x k idx))"
proof (cases "padtype \<noteq> None \<and> e > 0")
  case True
  then have e0: "0 < e" by simp
  show ?thesis
    using True even_ext_sections[OF k e0 e] odd_ext_sections[OF k e0 e]
      const_ext_sections[OF k e0 e]
    by (simp only: if_True) (simp split: if_splits)
next
  case False
  with pe have "nat e = 0" by auto
  with False show ?thesis by simp
qed

lemma filtfilt_stages_sections:
  assumes pt: "padtype \<in> set [Some ''even'', Some ''odd'', Some ''constant'', None]"
    and k: "k < length (shape x)"
    and eN: "e < int (shape x ! k)" and N: "0 < shape x ! k"
    and pe: "padtype = None \<longrightarrow> e = 0"
    and zi: "lfilter_zi b a = Inr zi" "length zi = max (length a) (length b) - 1" and a: "a \<noteq> []"
  shows "\<exists>y. filtfilt_stages b a x k padtype e = Inr y \<and> shape y = shape x
           \<and> (\<forall>idx. off_axis (shape x) k idx \<longrightarrow>
                 section_along y k idx = filtfilt1 b a zi padtype e (section_along x k idx))"
proof -
  let ?sh = "shape x"
  let ?N = "shape x ! k"
  let ?M = "?N + 2 * nat e"
  define ext1 where "ext1 = (\<lambda>xs. if padtype \<noteq> None \<and> e > 0
                      then (if padtype = Some ''even'' then even_ext1 xs (nat e)
                            else if padtype = Some ''odd'' then odd_ext1 xs (nat e)
                            else const_ext1 xs (nat e))
                      else xs)"
  obtain ext where ext: "(if padtype \<noteq> None \<and> e > 0
                 then (if padtype = Some ''even'' then even_ext x e k
                       else if padtype = Some ''odd'' then odd_ext x e k
                       else const_ext x e k)
                 else Inr x) = Inr ext"
    "shape ext = ?sh[k := ?M]"
    "\<forall>idx. off_axis ?sh k idx \<longrightarrow> section_along ext k idx = ext1 (section_along x k idx)"
    using ext_stage[OF pt k eN pe] unfolding ext1_def by blast
  have oa: "off_axis (?sh[k := m]) k idx = off_axis ?sh k idx" for m idx
    using k by (rule off_axis_shape)
  have ke: "k < length (shape ext)" "0 < shape ext ! k" "length (shape ext) = length ?sh"
    using k N by (simp_all add: ext(2))
  \<comment> \<open>forward pass\<close>
  let ?zi' = "reshape_along zi ((replicate (length ?sh) 1)[k := length zi]) k"
  let ?x0 = "axis_slice ext None (Some 1) None k"
  have x0: "shape ?x0 = (shape ext)[k := 1]"
    "\<forall>idx. off_axis (shape ext) k idx \<longrightarrow> section_along ?x0 k idx = [section_along ext k idx ! 0]"
    using ke section_first[of k _ ext] by (auto simp: off_axis_def)
  obtain z0 y1 zf1 where f: "nd_binop (*) ?zi' ?x0 = Inr z0" "lfilter b a ext k z0 = Inr (y1, zf1)"
    "shape y1 = shape ext"
    "\<forall>idx. off_axis (shape ext) k idx \<longrightarrow> section_along y1 k idx = pass1 b a zi (section_along ext k idx)"
    using pass_sections[OF ke(1,2) a zi(2) x0] unfolding ke(3) by blast
  \<comment> \<open>backward pass\<close>
  let ?y0 = "axis_slice y1 (Some (- 1)) None None k"
  let ?yr = "axis_reverse y1 k"
  have ky: "k < length (shape y1)" "0 < shape y1 ! k" using ke f(3) by simp_all
  have yr: "shape ?yr = shape ext" by (simp add: shape_axis_reverse f(3))
  have kr: "k < length (shape ?yr)" "0 < shape ?yr ! k" using ke yr by simp_all
  have y0: "shape ?y0 = (shape ?yr)[k := 1]"
    "\<forall>idx. off_axis (shape ?yr) k idx \<longrightarrow> section_along ?y0 k idx = [section_along ?yr k idx ! 0]"
  proof -
    show "shape ?y0 = (shape ?yr)[k := 1]"
      using ky section_last(1)[of k "shape y1" y1] by (simp add: yr f(3))
    show "\<forall>idx. off_axis (shape ?yr) k idx \<longrightarrow> section_along ?y0 k idx = [section_along ?yr k idx ! 0]"
    proof (intro allI impI)
      fix idx assume "off_axis (shape ?yr) k idx"
      then have li: "k < length idx" using kr(1) by (simp add: off_axis_def)
      have "section_along ?yr k idx ! 0 = section_along y1 k idx ! (shape y1 ! k - 1)"
        using ky by (simp add: section_axis_reverse[OF li ky(1)] rev_nth length_section)
      then show "section_along ?y0 k idx = [section_along ?yr k idx ! 0]"
        using section_last(2)[OF li ky] by simp
    qed
  qed
  obtain z1 y2 zf2 where g: "nd_binop (*) ?zi' ?y0 = Inr z1" "lfilter b a ?yr k z1 = Inr (y2, zf2)"
    "shape y2 = shape ?yr"
    "\<forall>idx. off_axis (shape ?yr) k idx \<longrightarrow> section_along y2 k idx = pass1 b a zi (section_along ?yr k idx)"
    using pass_sections[OF kr a zi(2) y0] unfolding yr ke(3) by blast
  define y3 where "y3 = axis_reverse y2 k"
  define y where "y = (if e > 0 then axis_slice y3 (Some e) (Some (- e)) None k else y3)"
  have run: "filtfilt_stages b a x k padtype e = Inr y"
    using ext(1) zi(1) f(1,2) g(1,2)
    by (simp add: filtfilt_stages_def Let_def ebind_def y_def y3_def)
  have k2: "k < length (shape y2)" using kr g(3) by simp
  have s3: "shape y3 = ?sh[k := ?M]" by (simp add: y3_def shape_axis_reverse g(3) f(3) ext(2))
  have sec3: "section_along y3 k idx
      = rev (pass1 b a zi (rev (pass1 b a zi (ext1 (section_along x k idx)))))"
    if o: "off_axis ?sh k idx" for idx
  proof -
    have li: "k < length idx" using o k by (simp add: off_axis_def)
    have oe: "off_axis (shape ext) k idx" "off_axis (shape ?yr) k idx"
      using o by (simp_all add: yr ext(2) oa)
    have "section_along y3 k idx = rev (section_along y2 k idx)"
      unfolding y3_def by (rule section_axis_reverse[OF li k2])
    also have "section_along y2 k idx = pass1 b a zi (section_along ?yr k idx)"
      using g(4) oe by simp
    also have "section_along ?yr k idx = rev (section_along y1 k idx)"
      by (rule section_axis_reverse[OF li ky(1)])
    also have "section_along y1 k idx = pass1 b a zi (section_along ext k idx)"
      using f(4) oe by simp
    also have "section_along ext k idx = ext1 (section_along x k idx)"
      using ext(3) o by simp
    finally show ?thesis .
  qed
  have shape_y: "shape y = ?sh"
  proof (cases "e > 0")
    case True
    have "shape y3 ! k = ?N + 2 * nat e" using k by (simp add: s3)
    from shape_trim[OF True this]
    show ?thesis by (simp add: y_def True s3)
  next
    case False
    then show ?thesis by (simp add: y_def s3)
  qed
  have sec: "section_along y k idx = filtfilt1 b a zi padtype e (section_along x k idx)"
    if o: "off_axis ?sh k idx" for idx
  proof (cases "e > 0")
    case True
    have li: "k < length idx" using o k by (simp add: off_axis_def)
    have k3: "k < length (shape y3)" using k by (simp add: s3)
    have "shape y3 ! k = ?N + 2 * nat e" using k by (simp add: s3)
    from section_trim[OF li k3 True this] sec3[OF o] True
    show ?thesis
      by (simp add: y_def filtfilt1_def Let_def ext1_def length_section)
  next
    case False
    with sec3[OF o] show ?thesis
      by (simp add: y_def filtfilt1_def Let_def ext1_def)
  qed
  show ?thesis using run shape_y sec by blast
qed

subsection \<open>Gaussian elimination returns a solution\<close>

lemma dot_Cons: "dot (c # cs) (z # zs) = c * z + dot cs zs"
  by (simp add: dot_def)

lemma dot_Nil: "dot [] zs = 0"
  by (simp add: dot_def)

lemma dot_eliminated:
  "length us = length zs \<Longrightarrow> length vs = length zs \<Longrightarrow>
   dot (map2 (\<lambda>u v. u - f * v) us vs) zs = dot us zs - f * dot vs zs"
proof (induction zs arbitrary: us vs)
  case Nil
  then show ?case by (simp add: dot_def)
next
  case (Cons z zs)
  then obtain u us' v vs' where "us = u # us'" "vs = v # vs'"
    by (metis length_Suc_conv)
  with Cons show ?case by (simp add: dot_Cons algebra_simps)
qed

lemma find_pivot_Some:
  assumes "find_pivot rows = Some (p, others)"
  shows "hd (fst p) \<noteq> 0 \<and> set rows = insert p (set others) \<and> length rows = Suc (length others)"
  using assms
proof (induction rows arbitrary: others)
  case Nil
  then show ?case by simp
next
  case (Cons r rs)
  show ?case
  proof (cases "hd (fst r) \<noteq> 0")
    case True
    with Cons.prems show ?thesis by auto
  next
    case False
    with Cons.prems obtain o' where o': "find_pivot rs = Some (p, o')" "others = r # o'"
      by (auto split: option.splits)
    from Cons.IH[OF o'(1)] o'(2) show ?thesis by auto
  qed
qed

lemma solve_rows_sound:
  assumes "solve_rows m rows = Some zs" "length rows = m" "\<forall>r \<in> set rows. length (fst r) = m"
  shows "length zs = m \<and> (\<forall>r \<in> set rows. dot (fst r) zs = snd r)"
  using assms
proof (induction m arbitrary: rows zs)
  case 0
  then show ?case by simp
next
  case (Suc m)
  from Suc.prems(1) obtain p others where piv: "find_pivot rows = Some (p, others)"
    by (auto split: option.splits)
  with Suc.prems(1) obtain ws where ws: "solve_rows m (map (eliminate p) others) = Some ws"
    and zs: "zs = (snd p - dot (tl (fst p)) ws) / hd (fst p) # ws"
    by (auto split: option.splits)
  note fp = find_pivot_Some[OF piv]
  have lp: "length (fst p) = Suc m" using fp Suc.prems(3) by auto
  have lo: "length (map (eliminate p) others) = m" using fp Suc.prems(2) by simp
  have le: "\<forall>r \<in> set (map (eliminate p) others). length (fst r) = m"
    using fp Suc.prems(3) lp by (auto simp: eliminate_def Let_def)
  from Suc.IH[OF ws lo le]
  have lw: "length ws = m" and sol: "\<forall>r \<in> set others. dot (fst (eliminate p r)) ws = snd (eliminate p r)"
    by auto
  obtain pc ps where p: "fst p = pc # ps" using lp by (cases "fst p") auto
  have pc: "pc \<noteq> 0" using fp p by simp
  have eq_p: "dot (fst p) zs = snd p"
    using pc by (simp add: p zs dot_Cons)
  have eq_o: "dot (fst r) zs = snd r" if r: "r \<in> set others" for r
  proof -
    have lr: "length (fst r) = Suc m" using fp Suc.prems(3) r by auto
    then obtain rc rs where rr: "fst r = rc # rs" by (cases "fst r") auto
    have ls: "length rs = length ws" "length ps = length ws" using lr lp rr p lw by simp_all
    have e1: "dot (fst (eliminate p r)) ws = snd (eliminate p r)" using sol r by blast
    have e2: "fst (eliminate p r) = map2 (\<lambda>u v. u - rc / pc * v) rs ps"
      "snd (eliminate p r) = snd r - rc / pc * snd p"
      by (simp_all add: eliminate_def Let_def rr p)
    have e3: "dot (map2 (\<lambda>u v. u - rc / pc * v) rs ps) ws = dot rs ws - rc / pc * dot ps ws"
      by (rule dot_eliminated[OF ls])
    have "dot rs ws - rc / pc * dot ps ws = snd r - rc / pc * snd p"
      using e1 unfolding e2 e3 .
    then show ?thesis
      using pc by (simp add: rr zs dot_Cons p field_simps)
  qed
  show ?case using lw zs eq_p eq_o fp by auto
qed

lemma np_solve_sound:
  assumes "np_solve A B = Inr z"
  shows "length z = length A \<and> (\<forall>i < length A. dot (A ! i) z = B ! i)"
proof -
  from assms have sq: "length B = length A" "\<forall>row \<in> set A. length row = length A"
    and s: "solve_rows (length A) (zip A B) = Some z"
    by (auto simp: np_solve_def split: if_splits option.splits)
  have "\<forall>r \<in> set (zip A B). length (fst r) = length A"
    using sq(2) by (auto dest: set_zip_leftD)
  from solve_rows_sound[OF s _ this] sq(1)
  have z: "length z = length A" "\<forall>r \<in> set (zip A B). dot (fst r) z = snd r" by auto
  have "dot (A ! i) z = B ! i" if "i < length A" for i
  proof -
    have "(A ! i, B ! i) \<in> set (zip A B)" using that sq(1) by (auto simp: set_zip)
    with z(2) show ?thesis by fastforce
  qed
  with z(1) show ?thesis by simp
qed

subsection \<open>The initial conditions are a steady state\<close>

lemma strip_zeros_id: "a \<noteq> [] \<Longrightarrow> a ! 0 \<noteq> 0 \<Longrightarrow> strip_zeros a = a"
  by (cases a rule: strip_zeros.cases) simp_all

lemma length_pad_to: "length (pad_to n v) = max n (length v)"
  by (simp add: pad_to_def)

lemma pad_to_map: "f 0 = 0 \<Longrightarrow> pad_to n (map f v) = map f (pad_to n v)"
  by (simp add: pad_to_def)

lemma dot_map_upt:
  "length zs = m \<Longrightarrow> dot (map g [0..<m]) zs = (\<Sum>j = 0..<m. g j * zs ! j)"
proof -
  assume l: "length zs = m"
  have "map2 (*) (map g [0..<m]) zs = map (\<lambda>j. g j * zs ! j) [0..<m]"
    by (rule nth_equalityI) (simp_all add: l)
  then show ?thesis by (simp add: dot_def sum_list_sum_nth)
qed

lemma companion_row_dot:
  fixes zs :: "real list" and c :: real
  assumes l: "length zs = m" and i: "i < m"
  shows "(\<Sum>j = 0..<m. ((if i = j then 1 else 0)
             - (if j = 0 then - c else if i = j - 1 then 1 else 0)) * zs ! j)
           = zs ! i + c * zs ! 0 - (if i + 1 < m then zs ! (i + 1) else 0)"
proof -
  have m0: "0 < m" using i by simp
  have "(\<Sum>j = 0..<m. ((if i = j then 1 else 0)
             - (if j = 0 then - c else if i = j - 1 then 1 else 0)) * zs ! j)
      = (\<Sum>j = 0..<m. (if j = i then zs ! j else 0) + (if j = 0 then c * zs ! j else 0)
             - (if j = i + 1 then zs ! j else 0))"
    by (intro sum.cong refl) (auto simp: algebra_simps)
  also have "\<dots> = (\<Sum>j = 0..<m. if j = i then zs ! j else 0)
                   + (\<Sum>j = 0..<m. if j = 0 then c * zs ! j else 0)
                   - (\<Sum>j = 0..<m. if j = i + 1 then zs ! j else 0)"
    by (simp add: sum.distrib sum_subtractf)
  also have "\<dots> = zs ! i + c * zs ! 0 - (if i + 1 < m then zs ! (i + 1) else 0)"
    using i m0 by (simp add: sum.delta)
  finally show ?thesis .
qed

lemma lfilter_zi_steady:
  fixes a b :: "real list"
  defines "n \<equiv> max (length a) (length b)"
  defines "nb \<equiv> map (\<lambda>v. v / a ! 0) (pad_to n b)"
  defines "na \<equiv> map (\<lambda>v. v / a ! 0) (pad_to n a)"
  assumes a: "a \<noteq> []" "a ! 0 \<noteq> 0" and zi: "lfilter_zi b a = Inr zi"
  shows "2 \<le> n \<and> length zi = n - 1
       \<and> (\<forall>i < n - 1. zi ! i + na ! (i + 1) * zi ! 0 - (if i + 1 < n - 1 then zi ! (i + 1) else 0)
                        = nb ! (i + 1) - na ! (i + 1) * nb ! 0)"
proof -
  let ?m = "n - 1"
  have ln: "length na = n" "length nb = n"
    by (simp_all add: na_def nb_def length_pad_to n_def)
  have na0: "na ! 0 = 1"
    using a by (cases a) (simp_all add: na_def pad_to_def)
  have a3: "pad_to (max (length (map (\<lambda>v. v / a ! 0) a)) (length (map (\<lambda>v. v / a ! 0) b)))
              (map (\<lambda>v. v / a ! 0) a) = na"
    and b3: "pad_to (max (length (map (\<lambda>v. v / a ! 0) a)) (length (map (\<lambda>v. v / a ! 0) b)))
              (map (\<lambda>v. v / a ! 0) b) = nb"
    by (simp_all add: pad_to_map na_def nb_def n_def)
  define B where "B = map2 (\<lambda>bv av. bv - av * nb ! 0) (tl nb) (tl na)"
  from zi a have run: "ebind (companion na)
      (\<lambda>C. np_solve (mat_sub (np_eye ?m) (transpose_sq C)) B) = Inr zi"
    unfolding lfilter_zi_def Let_def strip_zeros_id[OF a] a3 b3 B_def
    by (simp add: n_def)
  then obtain C where C: "companion na = Inr C"
    and sol: "np_solve (mat_sub (np_eye ?m) (transpose_sq C)) B = Inr zi"
    by (auto simp: ebind_def split: sum.splits)
  from C have n2: "2 \<le> n" and Cd: "C = map (\<lambda>i. map (\<lambda>j. if i = 0 then - (na ! (j + 1)) / na ! 0
                                 else if j = i - 1 then 1 else 0) [0..<?m]) [0..<?m]"
    using ln by (auto simp: companion_def Let_def split: if_splits)
  let ?A = "mat_sub (np_eye ?m) (transpose_sq C)"
  have lC: "length C = ?m" by (simp add: Cd)
  have lA: "length ?A = ?m" by (simp add: mat_sub_def np_eye_def transpose_sq_def lC)
  have row: "?A ! i = map (\<lambda>j. (if i = j then 1 else 0)
               - (if j = 0 then - (na ! (i + 1)) else if i = j - 1 then 1 else 0)) [0..<?m]"
    if i: "i < ?m" for i
  proof (rule nth_equalityI)
    show "length (?A ! i) = length (map (\<lambda>j. (if i = j then 1 else 0)
               - (if j = 0 then - (na ! (i + 1)) else if i = j - 1 then 1 else 0)) [0..<?m])"
      using i by (simp add: mat_sub_def np_eye_def transpose_sq_def lC)
  next
    fix j assume "j < length (?A ! i)"
    then have j: "j < ?m" using i by (simp add: mat_sub_def np_eye_def transpose_sq_def lC)
    show "?A ! i ! j = map (\<lambda>j. (if i = j then 1 else 0)
               - (if j = 0 then - (na ! (i + 1)) else if i = j - 1 then 1 else 0)) [0..<?m] ! j"
      using i j na0 by (simp add: mat_sub_def np_eye_def transpose_sq_def lC Cd)
  qed
  from np_solve_sound[OF sol] lA
  have lz: "length zi = ?m" and eqs: "\<forall>i < ?m. dot (?A ! i) zi = B ! i" by simp_all
  have "zi ! i + na ! (i + 1) * zi ! 0 - (if i + 1 < ?m then zi ! (i + 1) else 0)
          = nb ! (i + 1) - na ! (i + 1) * nb ! 0" if i: "i < ?m" for i
  proof -
    have "dot (?A ! i) zi = zi ! i + na ! (i + 1) * zi ! 0 - (if i + 1 < ?m then zi ! (i + 1) else 0)"
      unfolding row[OF i] dot_map_upt[OF lz] by (rule companion_row_dot[OF lz i])
    moreover have "B ! i = nb ! (i + 1) - na ! (i + 1) * nb ! 0"
      using i ln by (simp add: B_def nth_tl)
    ultimately show ?thesis using eqs i by simp
  qed
  with n2 lz show ?thesis by simp
qed

subsection \<open>A constant signal through the filter\<close>







subsection \<open>The errors of the stages\<close>

lemma ebind_Inl: "ebind m f = Inl e \<longleftrightarrow> m = Inl e \<or> (\<exists>v. m = Inr v \<and> f v = Inl e)"
  by (cases m) (simp_all add: ebind_def)

lemma nd_binop_error: "nd_binop f u v \<noteq> Inl InsufficientDataLength"
  by (auto simp: nd_binop_def ebind_Inl broadcast_shape_def InsufficientDataLength_def msg_too_short_def)

lemma concat2_error: "concat2 u v k \<noteq> Inl InsufficientDataLength"
  by (simp add: concat2_def InsufficientDataLength_def msg_too_short_def)

lemma np_concatenate3_error: "np_concatenate [u, v, w] k \<noteq> Inl InsufficientDataLength"
  by (simp add: ebind_Inl concat2_error)

lemma odd_ext_error: "odd_ext x e k \<noteq> Inl InsufficientDataLength"
proof -
  have m: "ValueError msg_ext_too_big \<noteq> InsufficientDataLength"
    by (simp add: InsufficientDataLength_def msg_too_short_def msg_ext_too_big_def)
  have "Inr x \<noteq> Inl InsufficientDataLength" by simp
  show ?thesis
    unfolding odd_ext_def Let_def
    using m by (simp add: ebind_Inl nd_binop_error np_concatenate3_error del: np_concatenate.simps)
qed

lemma even_ext_error: "even_ext x e k \<noteq> Inl InsufficientDataLength"
proof -
  have m: "ValueError msg_ext_too_big \<noteq> InsufficientDataLength"
    by (simp add: InsufficientDataLength_def msg_too_short_def msg_ext_too_big_def)
  show ?thesis
    unfolding even_ext_def Let_def
    using m by (simp add: np_concatenate3_error del: np_concatenate.simps)
qed

lemma const_ext_error: "const_ext x e k \<noteq> Inl InsufficientDataLength"
  unfolding const_ext_def Let_def
  by (simp add: ebind_Inl nd_binop_error np_concatenate3_error del: np_concatenate.simps)

lemma lfilter_error: "lfilter b a u k z \<noteq> Inl InsufficientDataLength"
  by (simp add: lfilter_def Let_def InsufficientDataLength_def msg_too_short_def msg_zi_shape_def)

lemma companion_error: "companion a \<noteq> Inl InsufficientDataLength"
  by (simp add: companion_def Let_def InsufficientDataLength_def msg_too_short_def)

lemma np_solve_error: "np_solve A B \<noteq> Inl InsufficientDataLength"
  by (simp add: np_solve_def InsufficientDataLength_def split: option.split)

lemma lfilter_zi_error: "lfilter_zi b a \<noteq> Inl InsufficientDataLength"
proof -
  have m: "ValueError ''There must be at least one nonzero `a` coefficient.'' \<noteq> InsufficientDataLength"
    "ValueError ''not modelled: division by zero gives NaN'' \<noteq> InsufficientDataLength"
    by (simp_all add: InsufficientDataLength_def msg_too_short_def)
  show ?thesis
    unfolding lfilter_zi_def Let_def
    using m by (simp add: ebind_Inl companion_error np_solve_error)
qed

lemma ext_choice_error:
  "(if c then (if c1 then even_ext x e k else if c2 then odd_ext x e k else const_ext x e k)
    else Inr x) \<noteq> Inl InsufficientDataLength"
  by (simp add: odd_ext_error even_ext_error const_ext_error)

lemma filtfilt_stages_error: "filtfilt_stages b a x k padtype edge \<noteq> Inl InsufficientDataLength"
  unfolding filtfilt_stages_def Let_def
  by (simp add: ebind_Inl ext_choice_error nd_binop_error lfilter_error lfilter_zi_error split_beta)

subsection \<open>The routine as a whole\<close>

lemma fb_filtfilt_checked:
  assumes "padtype \<in> set [Some ''even'', Some ''odd'', Some ''constant'', None]"
    and "resolve_axis (length (shape x)) axis = Inr k"
  shows "fb_filtfilt b a x axis padtype padlen
           = (if int (shape x ! k) \<le> effective_edge b a padtype padlen then Inl InsufficientDataLength
              else filtfilt_stages b a x k padtype (effective_edge b a padtype padlen))"
  using assms by (simp add: fb_filtfilt_def Let_def ebind_def)

lemma lfilter_zi_nonempty: "lfilter_zi b a = Inr zi \<Longrightarrow> a \<noteq> []"
  by (auto simp: lfilter_zi_def)

lemma lfilter_zi_length:
  assumes "a ! 0 \<noteq> 0" "lfilter_zi b a = Inr zi"
  shows "length zi = max (length a) (length b) - 1"
  using lfilter_zi_steady[OF lfilter_zi_nonempty[OF assms(2)] assms] by simp

lemma fb_filtfilt_sections:
  assumes pt: "padtype \<in> set [Some ''even'', Some ''odd'', Some ''constant'', None]"
    and ax: "resolve_axis (length (shape x)) axis = Inr k"
    and e: "effective_edge b a padtype padlen < int (shape x ! k)" and N: "0 < shape x ! k"
    and a0: "a ! 0 \<noteq> 0" and zi: "lfilter_zi b a = Inr zi"
  shows "\<exists>y. fb_filtfilt b a x axis padtype padlen = Inr y \<and> shape y = shape x
           \<and> (\<forall>idx. off_axis (shape x) k idx \<longrightarrow>
                 section_along y k idx
                   = filtfilt1 b a zi padtype (effective_edge b a padtype padlen)
                       (section_along x k idx))"
proof -
  have k: "k < length (shape x)" using ax by (rule resolve_axis_less)
  have pe: "padtype = None \<longrightarrow> effective_edge b a padtype padlen = 0"
    by (simp add: effective_edge_None)
  from filtfilt_stages_sections[OF pt k e N pe zi lfilter_zi_length[OF a0 zi] lfilter_zi_nonempty[OF zi]]
  show ?thesis using e by (simp add: fb_filtfilt_checked[OF pt ax])
qed

text \<open>
  Claim C3. A \<open>padtype\<close> that is not one of odd, even, constant or none ends the call with
  the \<open>InvalidArgument\<close> error of the first statement, whatever the other arguments are:
  the result does not depend on the coefficients, the signal, the axis or the pad length,
  also where a later statement would raise on them.
\<close>

theorem fb_filtfilt_invalid_padtype:
  assumes "padtype \<notin> set [Some ''even'', Some ''odd'', Some ''constant'', None]"
  shows "fb_filtfilt b a x axis padtype padlen = Inl (ValueError msg_padtype)
       \<and> InvalidArgument (ValueError msg_padtype)"
  using assms by (simp add: fb_filtfilt_def InvalidArgument_def validation_messages_def)

theorem fb_filtfilt_invalid_padtype_witness:
  "Some ''bogus'' \<notin> set [Some ''even'', Some ''odd'', Some ''constant'', None]
   \<and> fb_filtfilt [] [] \<lparr>shape = [], item = (\<lambda>idx. 0)\<rparr> 7 (Some ''bogus'') (Some (- 1))
       = Inl (ValueError msg_padtype)"
  using fb_filtfilt_invalid_padtype[of "Some ''bogus''" "[]" "[]" "\<lparr>shape = [], item = (\<lambda>idx. 0)\<rparr>" 7
      "Some (- 1)"]
  by simp

text \<open>
  Claim C2, amended. With a valid \<open>padtype\<close> and an axis of \<open>x\<close>, the call raises
  \<open>InsufficientDataLength\<close> if and only if the effective pad length \<open>p\<close> is at least
  \<open>x.shape[axis]\<close>; otherwise the result is that of the stages of the filter.
\<close>

theorem fb_filtfilt_too_short_iff:
  assumes "padtype \<in> set [Some ''even'', Some ''odd'', Some ''constant'', None]"
    and "resolve_axis (length (shape x)) axis = Inr k"
  shows "(fb_filtfilt b a x axis padtype padlen = Inl InsufficientDataLength)
           = (effective_edge b a padtype padlen \<ge> int (shape x ! k))
       \<and> (effective_edge b a padtype padlen < int (shape x ! k) \<longrightarrow>
            fb_filtfilt b a x axis padtype padlen
              = filtfilt_stages b a x k padtype (effective_edge b a padtype padlen))"
  using filtfilt_stages_error[of b a x k padtype "effective_edge b a padtype padlen"]
  by (simp add: fb_filtfilt_checked[OF assms])

text \<open>
  Claim C1, amended. For coefficients \<open>b\<close> and \<open>a\<close> with \<open>a[0]\<close> nonzero for which the initial
  conditions \<open>lfilter_zi(b, a)\<close> exist, every signal \<open>x\<close>, every axis of \<open>x\<close>, every valid
  \<open>padtype\<close> and every effective pad length smaller than the extent of \<open>x\<close> along the axis
  (which is not zero), the call returns an array whose shape is the shape of \<open>x\<close>.
\<close>

theorem fb_filtfilt_shape:
  assumes "padtype \<in> set [Some ''even'', Some ''odd'', Some ''constant'', None]"
    and "resolve_axis (length (shape x)) axis = Inr k"
    and "effective_edge b a padtype padlen < int (shape x ! k)" and "0 < shape x ! k"
    and "a ! 0 \<noteq> 0" and "lfilter_zi b a = Inr zi"
  shows "\<exists>y. fb_filtfilt b a x axis padtype padlen = Inr y \<and> shape y = shape x"
  using fb_filtfilt_sections[OF assms] by blast

lemma fb_filtfilt_no_zi:
  assumes pt: "padtype \<in> set [Some ''even'', Some ''odd'', Some ''constant'', None]"
    and ax: "resolve_axis (length (shape x)) axis = Inr k"
    and e: "effective_edge b a padtype padlen < int (shape x ! k)"
    and zi: "lfilter_zi b a = Inl err"
  shows "fb_filtfilt b a x axis padtype padlen = Inl err"
proof -
  have k: "k < length (shape x)" using ax by (rule resolve_axis_less)
  have pe: "padtype = None \<longrightarrow> effective_edge b a padtype padlen = 0"
    by (simp add: effective_edge_None)
  let ?e = "effective_edge b a padtype padlen"
  obtain ext where ext: "(if padtype \<noteq> None \<and> ?e > 0
                 then (if padtype = Some ''even'' then even_ext x ?e k
                       else if padtype = Some ''odd'' then odd_ext x ?e k
                       else const_ext x ?e k)
                 else Inr x) = Inr ext"
    using ext_stage[OF pt k e pe] by blast
  have "filtfilt_stages b a x k padtype ?e = Inl err"
    unfolding filtfilt_stages_def ext by (simp add: ebind_def zi)
  with e show ?thesis by (simp add: fb_filtfilt_checked[OF pt ax])
qed

subsection \<open>Constant signals\<close>






subsection \<open>Stable filters\<close>


text \<open>
  A filter without feedback (\<open>a = [1]\<close>) has no pole and is stable. The one-pole low-pass
  \<open>a = [1, -0.5]\<close> has its pole at 0.5 and is stable; \<open>a = [1, -2.1]\<close> has its pole at 2.1 and
  is not: its output grows without bound, and so do its rounding errors.
\<close>

lemma stable_two_tap_sum: "stable [1]"
  by (simp add: stable_def)


lemma unstable_growing: "\<not> stable [1, - 21/10]"
proof
  assume "stable [1, - 21/10]"
  moreover have "(\<Sum>i < length [1, - 21/10 :: real].
      complex_of_real ([1, - 21/10] ! i) * (21/10) ^ (length [1, - 21/10 :: real] - 1 - i)) = 0"
    by simp
  ultimately have "cmod (21/10) < 1" unfolding stable_def by blast
  then show False by (simp add: norm_divide)
qed


subsection \<open>The routine on concrete signals\<close>

lemma zi_sum2: "lfilter_zi [1, 1] [1] = Inr [1]"
  by (simp add: lfilter_zi_def companion_def np_solve_def np_eye_def transpose_sq_def mat_sub_def
        pad_to_def ebind_def eliminate_def dot_def Let_def)


lemma zi_integrator: "lfilter_zi [1] [1, - 1] = Inl (LinAlgError ''Singular matrix'')"
  by (simp add: lfilter_zi_def companion_def np_solve_def np_eye_def transpose_sq_def mat_sub_def
        pad_to_def ebind_def eliminate_def dot_def Let_def)

lemma axis_last1: "resolve_axis (length (shape (array1 xs))) (- 1) = Inr 0"
  by (simp add: resolve_axis_def array1_def)

theorem fb_filtfilt_shape_witness:
  "\<exists>y. fb_filtfilt [1, 1] [1] (array1 [1, 2, 3, 4, 5]) (- 1) (Some ''odd'') (Some 4) = Inr y
       \<and> shape y = [5]"
proof -
  have "\<exists>y. fb_filtfilt [1, 1] [1] (array1 [1, 2, 3, 4, 5]) (- 1) (Some ''odd'') (Some 4) = Inr y
       \<and> shape y = shape (array1 [1, 2, 3, 4, 5])"
    by (rule fb_filtfilt_shape[OF _ axis_last1 _ _ _ zi_sum2])
       (simp_all add: effective_edge_def array1_def)
  moreover have "shape (array1 [1, 2, 3, 4, 5]) = [5]" by (simp add: array1_def)
  ultimately show ?thesis by simp
qed

text \<open>
  Claim C1 as stated fails for coefficients without a steady state: for the accumulator
  \<open>b = [1]\<close>, \<open>a = [1, -1]\<close> the system of \<open>lfilter_zi\<close> is singular and the call raises.
\<close>

theorem fb_filtfilt_no_steady_state:
  "fb_filtfilt [1] [1, - 1] (array1 [1, 2, 3, 4, 5]) (- 1) (Some ''odd'') (Some 1)
     = Inl (LinAlgError ''Singular matrix'')"
  by (rule fb_filtfilt_no_zi[OF _ axis_last1 _ zi_integrator])
     (simp_all add: effective_edge_def array1_def)

theorem fb_filtfilt_too_short_iff_witness:
  "fb_filtfilt [1, 1] [1] (array1 [1, 2, 3, 4, 5]) (- 1) (Some ''odd'') (Some 5)
     = Inl InsufficientDataLength
   \<and> fb_filtfilt [1, 1] [1] (array1 [1, 2, 3, 4, 5]) (- 1) (Some ''odd'') (Some 4)
     = filtfilt_stages [1, 1] [1] (array1 [1, 2, 3, 4, 5]) 0 (Some ''odd'') 4"
proof -
  have pt: "Some ''odd'' \<in> set [Some ''even'', Some ''odd'', Some ''constant'', None]" by simp
  note t = fb_filtfilt_too_short_iff[OF pt axis_last1, where b = "[1, 1]" and a = "[1]"]
  have e: "effective_edge [1, 1] [1] (Some ''odd'') (Some p) = p" for p
    by (simp add: effective_edge_def)
  have s: "shape (array1 [1, 2, 3, 4, 5]) ! 0 = 5" by (simp add: array1_def)
  from t[of "[1, 2, 3, 4, 5]" "Some 5"] t[of "[1, 2, 3, 4, 5]" "Some 4"]
  show ?thesis by (simp add: e s)
qed

text \<open>
  Claim C2 as stated fails at a pad length of the extent minus one: 5 samples and
  \<open>padlen = 4\<close> pass the check, and the call returns.
\<close>

theorem fb_filtfilt_pad_extent_minus_one:
  "(4::int) \<ge> int (shape (array1 [1, 2, 3, 4, 5]) ! 0) - 1
   \<and> \<not> isl (fb_filtfilt [1, 1] [1] (array1 [1, 2, 3, 4, 5]) (- 1) (Some ''odd'') (Some 4))"
proof -
  have "\<exists>y. fb_filtfilt [1, 1] [1] (array1 [1, 2, 3, 4, 5]) (- 1) (Some ''odd'') (Some 4) = Inr y
       \<and> shape y = shape (array1 [1, 2, 3, 4, 5])
       \<and> (\<forall>idx. off_axis (shape (array1 [1, 2, 3, 4, 5])) 0 idx \<longrightarrow>
                 section_along y 0 idx
                   = filtfilt1 [1, 1] [1] [1] (Some ''odd'') (effective_edge [1, 1] [1] (Some ''odd'') (Some 4))
                       (section_along (array1 [1, 2, 3, 4, 5]) 0 idx))"
    by (rule fb_filtfilt_sections[OF _ axis_last1 _ _ _ zi_sum2])
       (simp_all add: effective_edge_def array1_def)
  then obtain y where
    "fb_filtfilt [1, 1] [1] (array1 [1, 2, 3, 4, 5]) (- 1) (Some ''odd'') (Some 4) = Inr y"
    by blast
  then show ?thesis by (simp add: array1_def)
qed



end
